theory Spec2Isabelle
  imports Main "HOL-Library.AList"
begin

section \<open>Instants and calendar fields\<close>

text \<open>
  Every date of the program is a Luxon \<^verbatim>\<open>DateTime\<close> in the UTC zone, obtained from an ISO
  string by \<^verbatim>\<open>parseUTC\<close> and written back by \<^verbatim>\<open>toISO\<close>. An instant is modelled by its
  \<^verbatim>\<open>toMillis()\<close> value: the number of milliseconds since 1970-01-01T00:00:00Z (a Thursday).
  Comparison of two \<^verbatim>\<open>DateTime\<close>s is comparison of these numbers, \<^verbatim>\<open>plus({minutes: n})\<close>
  adds \<open>n * 60000\<close>, \<^verbatim>\<open>plus({days: d})\<close> adds \<open>d * 86400000\<close> (UTC has no offset changes), and
  \<^verbatim>\<open>parseUTC\<close> and \<^verbatim>\<open>toISO\<close> are the identity on well-formed dates.
\<close>

type_synonym instant = int

definition weekday :: "instant \<Rightarrow> int" where
  \<comment> \<open>Luxon: 1 = Monday, ..., 7 = Sunday.\<close>
  "weekday t = (t div 86400000 + 3) mod 7 + 1"

definition hour :: "instant \<Rightarrow> int" where
  "hour t = (t mod 86400000) div 3600000"

definition minute :: "instant \<Rightarrow> int" where
  "minute t = (t mod 3600000) div 60000"

definition startOfDay :: "instant \<Rightarrow> instant" where
  "startOfDay t = t - t mod 86400000"

definition setHour :: "instant \<Rightarrow> int \<Rightarrow> instant" where
  \<comment> \<open>\<^verbatim>\<open>dt.startOf('day').set({hour: h, minute: 0, second: 0, millisecond: 0})\<close>\<close>
  "setHour t h = startOfDay t + h * 3600000"

definition plusMinutes :: "instant \<Rightarrow> int \<Rightarrow> instant" where
  "plusMinutes t n = t + n * 60000"

definition diffMinutesFloor :: "instant \<Rightarrow> instant \<Rightarrow> int" where
  \<comment> \<open>\<^verbatim>\<open>Math.floor(a.diff(b, 'minutes').minutes)\<close>\<close>
  "diffMinutesFloor a b = (a - b) div 60000"

section \<open>Data model\<close>

record shift =
  dayOfWeek :: int
  startHour :: int
  endHour :: int

text \<open>A \<^verbatim>\<open>MaintenanceRange\<close> of date-utils: \<^verbatim>\<open>{start, end}\<close>, already parsed.\<close>

record maintenanceRange =
  rangeStart :: instant
  rangeEnd :: instant

text \<open>A \<^verbatim>\<open>MaintenanceWindow\<close> document: \<^verbatim>\<open>{startDate, endDate, reason?}\<close>.\<close>

record maintenanceWindow =
  winStartDate :: instant
  winEndDate :: instant
  reason :: "string option"

record workCenter =
  name :: string
  shifts :: "shift list"
  maintenanceWindows :: "maintenanceWindow list"

record workOrder =
  workOrderNumber :: string
  workCenterId :: string
  startDate :: instant
  endDate :: instant
  durationMinutes :: int
  isMaintenance :: bool
  dependsOnWorkOrderIds :: "string list"

section \<open>ShiftCalendar (date-utils.ts)\<close>

definition toPlanDayOfWeek :: "int \<Rightarrow> int" where
  "toPlanDayOfWeek luxonWeekday = (if luxonWeekday = 7 then 0 else luxonWeekday)"

definition isInShift :: "instant \<Rightarrow> shift \<Rightarrow> bool" where
  "isInShift dt s =
     (let day = toPlanDayOfWeek (weekday dt); h = hour dt; m = minute dt in
      if dayOfWeek s \<noteq> day then False
      else if h > startHour s \<and> h < endHour s then True
      else if h = startHour s \<and> h < endHour s then True
      else if h = endHour s \<and> m = 0 then False
      else False)"

definition isWithinShift :: "instant \<Rightarrow> shift list \<Rightarrow> bool" where
  "isWithinShift dt shs = list_ex (isInShift dt) shs"

fun getShiftSegmentEnd :: "instant \<Rightarrow> shift list \<Rightarrow> instant" where
  "getShiftSegmentEnd dt [] = dt"
| "getShiftSegmentEnd dt (s # rest) =
     (if dayOfWeek s \<noteq> toPlanDayOfWeek (weekday dt) then getShiftSegmentEnd dt rest
      else if hour dt \<ge> startHour s \<and> hour dt < endHour s then setHour dt (endHour s)
      else getShiftSegmentEnd dt rest)"

text \<open>The inner loop of \<^verbatim>\<open>getNextShiftStart\<close>: the shifts of one day \<open>day = dt.plus({days: d})\<close>.\<close>

definition scanShiftStarts :: "instant \<Rightarrow> instant \<Rightarrow> shift list \<Rightarrow> instant option \<Rightarrow> instant option" where
  "scanShiftStarts dt day shs best0 =
     fold (\<lambda>s best.
        if dayOfWeek s \<noteq> toPlanDayOfWeek (weekday day) then best
        else let candidate = setHour day (startHour s) in
          if candidate \<ge> dt \<and> (case best of None \<Rightarrow> True | Some b \<Rightarrow> candidate < b)
          then Some candidate else best) shs best0"

definition getNextShiftStart :: "instant \<Rightarrow> shift list \<Rightarrow> instant" where
  "getNextShiftStart dt shs =
     (if shs = [] then dt
      else case fold (\<lambda>d best. scanShiftStarts dt (dt + d * 86400000) shs best)
                  [0, 1, 2, 3, 4, 5, 6, 7] None of
             None \<Rightarrow> dt
           | Some b \<Rightarrow> b)"

section \<open>TimeWalker (date-utils.ts)\<close>

definition inRange :: "instant \<Rightarrow> maintenanceRange \<Rightarrow> bool" where
  "inRange dt r = (dt \<ge> rangeStart r \<and> dt < rangeEnd r)"

definition isInMaintenanceRange :: "instant \<Rightarrow> maintenanceRange list \<Rightarrow> bool" where
  "isInMaintenanceRange dt ranges = list_ex (inRange dt) ranges"

definition getMaintenanceRangeEnd :: "instant \<Rightarrow> maintenanceRange list \<Rightarrow> instant option" where
  "getMaintenanceRangeEnd dt ranges = map_option rangeEnd (find (inRange dt) ranges)"

text \<open>
  \<^verbatim>\<open>getNextWorkingMoment\<close>: \<^verbatim>\<open>for (let i = 0; i < MAX_ITER; i++)\<close>; the first argument of the
  loop is the number of iterations left. When none is left the loop ends and the function
  returns \<^verbatim>\<open>current\<close> (the statement after the loop).
\<close>

fun nextWorkingMomentLoop :: "nat \<Rightarrow> shift list \<Rightarrow> maintenanceRange list \<Rightarrow> instant \<Rightarrow> instant" where
  "nextWorkingMomentLoop 0 shs ranges current = current"
| "nextWorkingMomentLoop (Suc n) shs ranges current =
     (if shs \<noteq> [] \<and> \<not> isWithinShift current shs
      then nextWorkingMomentLoop n shs ranges (getNextShiftStart current shs)
      else if ranges \<noteq> [] \<and> isInMaintenanceRange current ranges
      then (case getMaintenanceRangeEnd current ranges of
              Some e \<Rightarrow> nextWorkingMomentLoop n shs ranges e
            | None \<Rightarrow> current)
      else current)"

definition getNextWorkingMoment :: "instant \<Rightarrow> shift list \<Rightarrow> maintenanceRange list \<Rightarrow> instant" where
  "getNextWorkingMoment dt shs ranges = nextWorkingMomentLoop 1000 shs ranges dt"

definition getWorkingSegmentEnd :: "instant \<Rightarrow> shift list \<Rightarrow> maintenanceRange list \<Rightarrow> instant" where
  "getWorkingSegmentEnd dt shs ranges =
     fold (\<lambda>r segmentEnd.
        if rangeStart r > dt \<and> rangeStart r < segmentEnd then rangeStart r else segmentEnd)
       ranges (getShiftSegmentEnd dt shs)"

text \<open>
  The loop of \<^verbatim>\<open>calculateEndDateWithShiftsAndMaintenance\<close>:
  \<^verbatim>\<open>for (let i = 0; i < MAX_ITER && remaining > 0; i++)\<close>, followed by \<^verbatim>\<open>return current\<close>.
\<close>

fun walkLoop :: "nat \<Rightarrow> shift list \<Rightarrow> maintenanceRange list \<Rightarrow> instant \<Rightarrow> int \<Rightarrow> instant" where
  "walkLoop 0 shs ranges current remaining = current"
| "walkLoop (Suc n) shs ranges current remaining =
     (if remaining > 0 then
        (let segmentEnd = getWorkingSegmentEnd current shs ranges;
             minutesInSegment = diffMinutesFloor segmentEnd current in
         if minutesInSegment \<le> 0
         then walkLoop n shs ranges (getNextWorkingMoment segmentEnd shs ranges) remaining
         else if remaining \<le> minutesInSegment then plusMinutes current remaining
         else walkLoop n shs ranges (getNextWorkingMoment segmentEnd shs ranges)
                (remaining - minutesInSegment))
      else current)"

definition calculateEndDateWithShiftsAndMaintenance ::
    "instant \<Rightarrow> int \<Rightarrow> shift list \<Rightarrow> maintenanceRange list \<Rightarrow> instant" where
  "calculateEndDateWithShiftsAndMaintenance startD duration shs ranges =
     (if shs = [] then plusMinutes startD duration
      else walkLoop 5000 shs ranges (getNextWorkingMoment startD shs ranges) duration)"

text \<open>\<^verbatim>\<open>getWorkingSegments\<close>: the same walk, collecting each segment \<^verbatim>\<open>{start, end}\<close>.\<close>

fun segmentsLoop :: "nat \<Rightarrow> shift list \<Rightarrow> maintenanceRange list \<Rightarrow> instant \<Rightarrow> int
    \<Rightarrow> (instant \<times> instant) list \<Rightarrow> (instant \<times> instant) list" where
  "segmentsLoop 0 shs ranges current remaining segments = segments"
| "segmentsLoop (Suc n) shs ranges current remaining segments =
     (if remaining > 0 then
        (let segmentEnd = getWorkingSegmentEnd current shs ranges;
             minutesInSegment = diffMinutesFloor segmentEnd current in
         if minutesInSegment \<le> 0
         then segmentsLoop n shs ranges (getNextWorkingMoment segmentEnd shs ranges) remaining segments
         else if remaining \<le> minutesInSegment
         then segments @ [(current, plusMinutes current remaining)]
         else segmentsLoop n shs ranges (getNextWorkingMoment segmentEnd shs ranges)
                (remaining - minutesInSegment) (segments @ [(current, segmentEnd)]))
      else segments)"

definition getWorkingSegments ::
    "instant \<Rightarrow> int \<Rightarrow> shift list \<Rightarrow> maintenanceRange list \<Rightarrow> (instant \<times> instant) list" where
  "getWorkingSegments startD duration shs ranges =
     (if shs = [] then [(startD, plusMinutes startD duration)]
      else segmentsLoop 5000 shs ranges (getNextWorkingMoment startD shs ranges) duration [])"

text \<open>
  \<^verbatim>\<open>calculateEndDateWithShifts\<close> walks with \<^verbatim>\<open>while (remaining > 0)\<close> and no bound: the loop
  is a partial function, and \<open>None\<close> is the run that never returns.
\<close>

partial_function (option) shiftWalkLoop :: "shift list \<Rightarrow> instant \<Rightarrow> int \<Rightarrow> instant option" where
  "shiftWalkLoop shs current remaining =
     (if remaining > 0 then
        (if diffMinutesFloor (getShiftSegmentEnd current shs) current \<le> 0
         then shiftWalkLoop shs (getNextShiftStart current shs) remaining
         else if remaining \<le> diffMinutesFloor (getShiftSegmentEnd current shs) current
         then Some (plusMinutes current remaining)
         else shiftWalkLoop shs (getShiftSegmentEnd current shs)
                (remaining - diffMinutesFloor (getShiftSegmentEnd current shs) current))
      else Some current)"

declare shiftWalkLoop.simps [code]

definition calculateEndDateWithShifts :: "instant \<Rightarrow> int \<Rightarrow> shift list \<Rightarrow> instant option" where
  "calculateEndDateWithShifts startD duration shs =
     (if shs = [] then Some (plusMinutes startD duration)
      else shiftWalkLoop shs
             (if \<not> isWithinShift startD shs then getNextShiftStart startD shs else startD)
             duration)"

section \<open>Validator (constraint-checker.ts, the copy imported by reflow.service.ts)\<close>

text \<open>
  The validator pushes message strings onto \<^verbatim>\<open>errors\<close>. A message is modelled by a
  constructor naming its kind, with the values the message prints.
\<close>

datatype validationError =
    WorkCenterConflict string string instant string instant
  | UnknownDependency string string
  | DependencyViolation string instant instant
  | StartOutsideShift string instant string
  | EndMismatch string instant instant
  | MaintenanceOverlap string instant instant instant instant string "string option"

record validationResult =
  valid :: bool
  errors :: "validationError list"

text \<open>
  \<^verbatim>\<open>byCenter\<close> is a JavaScript \<^verbatim>\<open>Map\<close> that is iterated: an association list in insertion
  order (\<^const>\<open>AList.update\<close> replaces the value of a present key in place and appends a new
  key, as \<^verbatim>\<open>Map.set\<close> does).
\<close>

definition groupStep :: "workOrder \<Rightarrow> (string \<times> workOrder list) list \<Rightarrow> (string \<times> workOrder list) list" where
  "groupStep wo byCenter =
     AList.update (workCenterId wo)
       ((case map_of byCenter (workCenterId wo) of None \<Rightarrow> [] | Some l \<Rightarrow> l) @ [wo]) byCenter"

definition groupByCenter :: "workOrder list \<Rightarrow> (string \<times> workOrder list) list" where
  "groupByCenter wos = fold groupStep wos []"

fun adjacentConflicts :: "string \<Rightarrow> workOrder list \<Rightarrow> validationError list" where
  "adjacentConflicts c (a # b # rest) =
     (if endDate a > startDate b
      then [WorkCenterConflict c (workOrderNumber a) (endDate a) (workOrderNumber b) (startDate b)]
      else []) @ adjacentConflicts c (b # rest)"
| "adjacentConflicts c [a] = []"
| "adjacentConflicts c [] = []"

definition checkWorkCenterConflicts :: "workOrder list \<Rightarrow> validationError list \<Rightarrow> validationError list" where
  "checkWorkCenterConflicts wos errs =
     errs @ concat (map (\<lambda>(c, orders). adjacentConflicts c (sort_key startDate orders))
                      (groupByCenter wos))"

definition indexByNumber :: "workOrder list \<Rightarrow> (string \<rightharpoonup> workOrder)" where
  \<comment> \<open>\<^verbatim>\<open>byNumber\<close>: a \<^verbatim>\<open>Map\<close> that is only read by key.\<close>
  "indexByNumber wos = fold (\<lambda>wo m. m(workOrderNumber wo \<mapsto> wo)) wos Map.empty"

text \<open>The body of \<^verbatim>\<open>for (const id of wo.dependsOnWorkOrderIds)\<close>, on \<^verbatim>\<open>(maxParentEnd, errors)\<close>.\<close>

definition parentStep :: "(string \<rightharpoonup> workOrder) \<Rightarrow> workOrder \<Rightarrow> string
    \<Rightarrow> instant option \<times> validationError list \<Rightarrow> instant option \<times> validationError list" where
  "parentStep byNumber wo i st =
     (case st of (maxParentEnd, es) \<Rightarrow>
        case byNumber i of
          None \<Rightarrow> (maxParentEnd, es @ [UnknownDependency (workOrderNumber wo) i])
        | Some parent \<Rightarrow>
            (if (case maxParentEnd of None \<Rightarrow> True | Some m \<Rightarrow> endDate parent > m)
             then Some (endDate parent) else maxParentEnd, es))"

definition scanParents :: "(string \<rightharpoonup> workOrder) \<Rightarrow> workOrder \<Rightarrow> validationError list
    \<Rightarrow> instant option \<times> validationError list" where
  "scanParents byNumber wo errs = fold (parentStep byNumber wo) (dependsOnWorkOrderIds wo) (None, errs)"

text \<open>The body of \<^verbatim>\<open>for (const wo of workOrders)\<close> in \<^verbatim>\<open>checkDependencies\<close>.\<close>

definition dependencyStep :: "(string \<rightharpoonup> workOrder) \<Rightarrow> workOrder \<Rightarrow> validationError list
    \<Rightarrow> validationError list" where
  "dependencyStep byNumber wo es =
     (if dependsOnWorkOrderIds wo = [] then es
      else case scanParents byNumber wo es of
        (None, es') \<Rightarrow> es'
      | (Some m, es') \<Rightarrow>
          if startDate wo < m then es' @ [DependencyViolation (workOrderNumber wo) (startDate wo) m]
          else es')"

definition checkDependencies :: "workOrder list \<Rightarrow> validationError list \<Rightarrow> validationError list" where
  "checkDependencies wos errs = fold (dependencyStep (indexByNumber wos)) wos errs"

definition toRange :: "maintenanceWindow \<Rightarrow> maintenanceRange" where
  "toRange w = \<lparr>rangeStart = winStartDate w, rangeEnd = winEndDate w\<rparr>"

text \<open>
  The body of \<^verbatim>\<open>for (const wo of workOrders)\<close> in \<^verbatim>\<open>checkShifts\<close>; \<open>None\<close> when the
  re-derivation of the end does not return.
\<close>

definition shiftStep :: "workCenter list \<Rightarrow> workOrder \<Rightarrow> validationError list
    \<Rightarrow> validationError list option" where
  "shiftStep wcs wo errs =
     (case find (\<lambda>c. name c = workCenterId wo) wcs of
        None \<Rightarrow> Some errs
      | Some wc \<Rightarrow>
          if shifts wc = [] then Some errs
          else
            let errs1 = (if \<not> isWithinShift (startDate wo) (shifts wc)
                         then errs @ [StartOutsideShift (workOrderNumber wo) (startDate wo) (workCenterId wo)]
                         else errs);
                ranges = map toRange (maintenanceWindows wc)
            in case (if ranges \<noteq> []
                     then Some (calculateEndDateWithShiftsAndMaintenance (startDate wo)
                                  (durationMinutes wo) (shifts wc) ranges)
                     else calculateEndDateWithShifts (startDate wo) (durationMinutes wo) (shifts wc)) of
                 None \<Rightarrow> None
               | Some computedEnd \<Rightarrow>
                   Some (if abs (computedEnd - endDate wo) > 60000
                         then errs1 @ [EndMismatch (workOrderNumber wo) (endDate wo) computedEnd]
                         else errs1))"

fun checkShifts :: "workOrder list \<Rightarrow> workCenter list \<Rightarrow> validationError list
    \<Rightarrow> validationError list option" where
  "checkShifts [] wcs errs = Some errs"
| "checkShifts (wo # rest) wcs errs =
     (case shiftStep wcs wo errs of
        None \<Rightarrow> None
      | Some errs' \<Rightarrow> checkShifts rest wcs errs')"

definition checkMaintenance :: "workOrder list \<Rightarrow> workCenter list \<Rightarrow> validationError list
    \<Rightarrow> validationError list" where
  \<comment> \<open>The body is empty: "Work may span maintenance; no strict overlap check."\<close>
  "checkMaintenance wos wcs errs = errs"

definition validateSchedule :: "workOrder list \<Rightarrow> workCenter list \<Rightarrow> validationResult option" where
  "validateSchedule wos wcs =
     (case checkShifts wos wcs (checkDependencies wos (checkWorkCenterConflicts wos [])) of
        None \<Rightarrow> None
      | Some errs \<Rightarrow>
          let errs' = checkMaintenance wos wcs errs
          in Some \<lparr>valid = (errs' = []), errors = errs'\<rparr>)"

section \<open>The standalone validator (src/constraint-checker.ts)\<close>



definition indexByName :: "workCenter list \<Rightarrow> (string \<rightharpoonup> workCenter)" where
  \<comment> \<open>\<^verbatim>\<open>centerByKey\<close> here, \<^verbatim>\<open>workCenterByName\<close> in reflow.\<close>
  "indexByName wcs = fold (\<lambda>wc m. m(name wc \<mapsto> wc)) wcs Map.empty"







section \<open>DependencyGraph (reflow.service.ts, topologicalOrder)\<close>

text \<open>
  \<^verbatim>\<open>inDegree\<close> is iterated to seed the queue, so it is an association list in insertion
  order; \<^verbatim>\<open>children\<close> is kept the same way. \<^verbatim>\<open>list.push\<close> on the array stored under a key
  followed by \<^verbatim>\<open>children.set\<close> is an update of that key with the extended list.
\<close>

datatype reflowError =
    CircularDependency "string list"
  | InvalidSchedule "validationError list"
  | TypeError

definition initDegrees :: "workOrder list \<Rightarrow> (string \<times> int) list" where
  "initDegrees wos = fold (\<lambda>wo inDegree. AList.update (workOrderNumber wo) 0 inDegree) wos []"

definition initChildren :: "workOrder list \<Rightarrow> (string \<times> string list) list" where
  "initChildren wos = fold (\<lambda>wo children. AList.update (workOrderNumber wo) [] children) wos []"

definition addEdge :: "(string \<rightharpoonup> workOrder) \<Rightarrow> workOrder \<Rightarrow> string
    \<Rightarrow> (string \<times> int) list \<times> (string \<times> string list) list
    \<Rightarrow> (string \<times> int) list \<times> (string \<times> string list) list" where
  "addEdge byNumber wo depId st =
     (case st of (inDegree, children) \<Rightarrow>
        if byNumber depId = None then (inDegree, children)
        else (AList.update (workOrderNumber wo)
                ((case map_of inDegree (workOrderNumber wo) of None \<Rightarrow> 0 | Some d \<Rightarrow> d) + 1) inDegree,
              AList.update depId
                ((case map_of children depId of None \<Rightarrow> [] | Some l \<Rightarrow> l) @ [workOrderNumber wo])
                children))"

definition addEdges :: "workOrder list
    \<Rightarrow> (string \<times> int) list \<times> (string \<times> string list) list
    \<Rightarrow> (string \<times> int) list \<times> (string \<times> string list) list" where
  "addEdges wos st =
     fold (\<lambda>wo st'. fold (addEdge (indexByNumber wos) wo) (dependsOnWorkOrderIds wo) st') wos st"

definition visitChild :: "string \<Rightarrow> (string \<times> int) list \<times> string list
    \<Rightarrow> (string \<times> int) list \<times> string list" where
  "visitChild c st =
     (case st of (inDegree, queue) \<Rightarrow>
        let d = (case map_of inDegree c of None \<Rightarrow> 1 | Some v \<Rightarrow> v) - 1
        in (AList.update c d inDegree, if d = 0 then queue @ [c] else queue))"

definition childrenOf :: "(string \<times> string list) list \<Rightarrow> string \<Rightarrow> string list" where
  "childrenOf children n = (case map_of children n of None \<Rightarrow> [] | Some cs \<Rightarrow> cs)"

text \<open>
  The measure of the queue loop: the ids that can still be pushed (an id is pushed when its
  in-degree is decremented to exactly zero, which happens at most once since in-degrees only
  decrease), plus the length of the queue.
\<close>

definition pushable :: "(string \<times> int) list \<Rightarrow> string \<Rightarrow> bool" where
  "pushable inDegree c = (case map_of inDegree c of None \<Rightarrow> True | Some d \<Rightarrow> d \<ge> 1)"

definition pending :: "(string \<times> string list) list \<Rightarrow> (string \<times> int) list \<Rightarrow> nat" where
  "pending children inDegree = length (filter (pushable inDegree) (concat (map snd children)))"

lemma filter_shrink_le:
  assumes "\<And>x. Q x \<Longrightarrow> P x"
  shows "length (filter Q xs) \<le> length (filter P xs)"
proof -
  have "filter Q xs = filter Q (filter P xs)"
    using assms by (induction xs) auto
  then show ?thesis
    by (metis length_filter_le)
qed

lemma filter_shrink_less:
  assumes "\<And>x. Q x \<Longrightarrow> P x" and "c \<in> set xs" and "P c" and "\<not> Q c"
  shows "length (filter Q xs) < length (filter P xs)"
proof -
  have "filter Q xs = filter Q (filter P xs)"
    using assms(1) by (induction xs) auto
  moreover have "c \<in> set (filter P xs)"
    using assms(2,3) by simp
  ultimately show ?thesis
    using assms(4) by (metis length_filter_less)
qed

lemma visitChild_measure:
  assumes "c \<in> set us" and "visitChild c (inDegree, queue) = (inDegree', queue')"
  shows "length (filter (pushable inDegree') us) + length queue'
           \<le> length (filter (pushable inDegree) us) + length queue"
proof (cases "(case map_of inDegree c of None \<Rightarrow> 1 | Some v \<Rightarrow> v) - 1 = 0")
  case True
  from True assms(2) have q: "queue' = queue @ [c]" and i: "inDegree' = AList.update c 0 inDegree"
    by (auto simp: visitChild_def Let_def)
  have "length (filter (pushable inDegree') us) < length (filter (pushable inDegree) us)"
  proof (rule filter_shrink_less [where c = c])
    fix x assume "pushable inDegree' x"
    then show "pushable inDegree x"
      using True by (auto simp: pushable_def i update_conv' split: option.splits if_splits)
  next
    show "c \<in> set us" by (rule assms(1))
  next
    show "pushable inDegree c"
      using True by (auto simp: pushable_def split: option.splits)
  next
    show "\<not> pushable inDegree' c"
      by (simp add: pushable_def i update_conv')
  qed
  with q show ?thesis by simp
next
  case False
  from False assms(2) have q: "queue' = queue"
      and i: "inDegree' = AList.update c ((case map_of inDegree c of None \<Rightarrow> 1 | Some v \<Rightarrow> v) - 1) inDegree"
    by (auto simp: visitChild_def Let_def)
  have "length (filter (pushable inDegree') us) \<le> length (filter (pushable inDegree) us)"
  proof (rule filter_shrink_le)
    fix x assume "pushable inDegree' x"
    then show "pushable inDegree x"
      using False by (auto simp: pushable_def i update_conv' split: option.splits if_splits)
  qed
  with q show ?thesis by simp
qed

lemma visitChildren_measure:
  "set cs \<subseteq> set us \<Longrightarrow> fold visitChild cs (inDegree, queue) = (inDegree', queue')
    \<Longrightarrow> length (filter (pushable inDegree') us) + length queue'
           \<le> length (filter (pushable inDegree) us) + length queue"
proof (induction cs arbitrary: inDegree queue)
  case Nil
  then show ?case by simp
next
  case (Cons c cs)
  obtain i1 q1 where s: "visitChild c (inDegree, queue) = (i1, q1)"
    by (cases "visitChild c (inDegree, queue)")
  from Cons.prems s have "fold visitChild cs (i1, q1) = (inDegree', queue')" by simp
  with Cons.IH [of i1 q1] Cons.prems(1)
  have "length (filter (pushable inDegree') us) + length queue'
          \<le> length (filter (pushable i1) us) + length q1" by simp
  moreover from visitChild_measure [OF _ s, of us] Cons.prems(1)
  have "length (filter (pushable i1) us) + length q1
          \<le> length (filter (pushable inDegree) us) + length queue" by simp
  ultimately show ?case by linarith
qed

lemma childrenOf_subset: "set (childrenOf children n) \<subseteq> set (concat (map snd children))"
proof (cases "map_of children n")
  case None
  then show ?thesis by (simp add: childrenOf_def)
next
  case (Some cs)
  then have "(n, cs) \<in> set children" by (rule map_of_SomeD)
  then have "cs \<in> set (map snd children)" by force
  with Some show ?thesis by (auto simp: childrenOf_def)
qed

function kahnLoop :: "(string \<times> string list) list \<Rightarrow> (string \<times> int) list \<Rightarrow> string list
    \<Rightarrow> string list \<Rightarrow> (string \<times> int) list \<times> string list" where
  "kahnLoop children inDegree [] result = (inDegree, result)"
| "kahnLoop children inDegree (n # queue) result =
     (case fold visitChild (childrenOf children n) (inDegree, queue) of
        (inDegree', queue') \<Rightarrow> kahnLoop children inDegree' queue' (result @ [n]))"
  by pat_completeness auto
termination
  apply (relation "measure (\<lambda>(children, inDegree, queue, result). pending children inDegree + length queue)")
   apply simp
  apply (simp add: pending_def)
  subgoal for children inDegree n queue x y
    using visitChildren_measure [OF childrenOf_subset, of children n inDegree queue x y]
    by simp
  done

text \<open>
  The state when the queue loop ends: the final \<^verbatim>\<open>inDegree\<close> map and \<^verbatim>\<open>result\<close>.
\<close>

definition kahnRun :: "workOrder list \<Rightarrow> (string \<times> int) list \<times> string list" where
  "kahnRun wos =
     (case addEdges wos (initDegrees wos, initChildren wos) of (inDegree, children) \<Rightarrow>
        kahnLoop children inDegree (map fst (filter (\<lambda>(i, d). d = 0) inDegree)) [])"

definition topologicalOrder :: "workOrder list \<Rightarrow> reflowError + string list" where
  "topologicalOrder wos =
     (let result = snd (kahnRun wos)
      in if length result \<noteq> length wos
         then Inl (CircularDependency
                     (filter (\<lambda>i. i \<notin> set result) (map workOrderNumber wos)))
         else Inr result)"

section \<open>Placer (reflow.service.ts)\<close>

datatype changeField = StartDateField | EndDateField

record change =
  changeWorkOrderId :: string
  changedField :: changeField
  oldValue :: instant
  newValue :: instant
  changeReason :: string
  howCreated :: string

text \<open>One sentence of the explanation: the order, the new date and the cause it prints.\<close>

datatype explanationPart =
    StartMoved string instant string
  | EndMoved string instant string

datatype explanation =
    NoChangesRequired
  | Explained "explanationPart list"

record reflowResult =
  updatedWorkOrders :: "workOrder list"
  changes :: "change list"
  explanationOf :: explanation

definition inWindow :: "instant \<Rightarrow> maintenanceWindow \<Rightarrow> bool" where
  "inWindow dt w = (dt \<ge> winStartDate w \<and> dt < winEndDate w)"

definition isInMaintenance :: "instant \<Rightarrow> maintenanceWindow list \<Rightarrow> bool" where
  "isInMaintenance dt windows = list_ex (inWindow dt) windows"

definition snapToShift :: "instant \<Rightarrow> shift list \<Rightarrow> instant" where
  \<comment> \<open>\<^verbatim>\<open>if (shifts.length > 0 && !isWithinShift(current, shifts)) current = getNextShiftStart(current, shifts)\<close>\<close>
  "snapToShift current shs =
     (if shs \<noteq> [] \<and> \<not> isWithinShift current shs then getNextShiftStart current shs else current)"

text \<open>
  The loop of \<^verbatim>\<open>getNextAvailableStart\<close>:
  \<^verbatim>\<open>while (isInMaintenance(current, windows) && iterations < MAX_MAINTENANCE_ITERATIONS)\<close>;
  the first argument is the number of iterations left.
\<close>

fun availableLoop :: "nat \<Rightarrow> shift list \<Rightarrow> maintenanceWindow list \<Rightarrow> instant \<Rightarrow> instant" where
  "availableLoop 0 shs windows current = current"
| "availableLoop (Suc n) shs windows current =
     (if isInMaintenance current windows
      then (case find (inWindow current) windows of
              None \<Rightarrow> availableLoop n shs windows current
            | Some w \<Rightarrow> availableLoop n shs windows (snapToShift (winEndDate w) shs))
      else current)"

definition getNextAvailableStart :: "instant \<Rightarrow> shift list \<Rightarrow> maintenanceWindow list \<Rightarrow> instant" where
  "getNextAvailableStart dt shs windows = availableLoop 500 shs windows (snapToShift dt shs)"

record placerState =
  scheduledByCenter :: "string \<rightharpoonup> (instant \<times> instant) list"
  newSchedule :: "string \<rightharpoonup> instant \<times> instant"
  changesSoFar :: "change list"
  explanationParts :: "explanationPart list"

definition scheduledOn :: "(string \<rightharpoonup> (instant \<times> instant) list) \<Rightarrow> string \<Rightarrow> (instant \<times> instant) list" where
  \<comment> \<open>\<^verbatim>\<open>scheduledByCenter.get(c) ?? []\<close>\<close>
  "scheduledOn scheduled c = (case scheduled c of None \<Rightarrow> [] | Some l \<Rightarrow> l)"

definition lastEndOnCenter :: "(string \<rightharpoonup> (instant \<times> instant) list) \<Rightarrow> string \<Rightarrow> instant option" where
  "lastEndOnCenter scheduled c =
     (case scheduledOn scheduled c of
        [] \<Rightarrow> None
      | x # xs \<Rightarrow> Some (fold max (map snd xs) (snd x)))"

definition parentEndOf :: "(string \<rightharpoonup> instant \<times> instant) \<Rightarrow> workOrder \<Rightarrow> instant" where
  "parentEndOf sched parent =
     (if isMaintenance parent then endDate parent
      else case sched (workOrderNumber parent) of
             Some (s, e) \<Rightarrow> e
           | None \<Rightarrow> endDate parent)"

definition parentEndStep :: "(string \<rightharpoonup> workOrder) \<Rightarrow> (string \<rightharpoonup> instant \<times> instant)
    \<Rightarrow> string \<Rightarrow> instant option \<Rightarrow> instant option" where
  "parentEndStep byNumber sched depId maxParentEnd =
     (case byNumber depId of
        None \<Rightarrow> maxParentEnd
      | Some parent \<Rightarrow>
          if (case maxParentEnd of None \<Rightarrow> True | Some m \<Rightarrow> parentEndOf sched parent > m)
          then Some (parentEndOf sched parent) else maxParentEnd)"

definition maxParentEndOf :: "(string \<rightharpoonup> workOrder) \<Rightarrow> (string \<rightharpoonup> instant \<times> instant)
    \<Rightarrow> workOrder \<Rightarrow> instant option" where
  "maxParentEndOf byNumber sched wo =
     fold (parentEndStep byNumber sched) (dependsOnWorkOrderIds wo) None"

definition orElse :: "'a option \<Rightarrow> 'a \<Rightarrow> 'a" where
  \<comment> \<open>\<^verbatim>\<open>a ?? b\<close>\<close>
  "orElse a b = (case a of None \<Rightarrow> b | Some v \<Rightarrow> v)"

definition startChange :: "workOrder \<Rightarrow> instant \<Rightarrow> instant option \<Rightarrow> instant option
    \<Rightarrow> change list \<times> explanationPart list" where
  "startChange wo candidateStart maxParentEnd lastEnd =
     (if candidateStart \<noteq> startDate wo then
        ([\<lparr>changeWorkOrderId = workOrderNumber wo, changedField = StartDateField,
           oldValue = startDate wo, newValue = candidateStart,
           changeReason =
             (if maxParentEnd = Some candidateStart then ''dependency''
              else if lastEnd = Some candidateStart then ''work center conflict''
              else ''shift or maintenance''),
           howCreated =
             (if maxParentEnd = Some candidateStart
              then ''Earliest slot after dependency finished; aligned to shift/maintenance.''
              else if lastEnd = Some candidateStart
              then ''Earliest slot after prior order on same center; aligned to shift/maintenance.''
              else ''Aligned to next available shift start (or after maintenance).'')\<rparr>],
         [StartMoved (workOrderNumber wo) candidateStart
            (if maxParentEnd = Some candidateStart then ''dependency on parent''
             else if lastEnd \<noteq> None then ''after prior order on same center''
             else ''shift/maintenance'')])
      else ([], []))"

definition endChange :: "workOrder \<Rightarrow> instant \<Rightarrow> instant option \<Rightarrow> instant option
    \<Rightarrow> change list \<times> explanationPart list" where
  "endChange wo newEnd maxParentEnd lastEnd =
     (if newEnd \<noteq> endDate wo then
        ([\<lparr>changeWorkOrderId = workOrderNumber wo, changedField = EndDateField,
           oldValue = endDate wo, newValue = newEnd,
           changeReason =
             (if maxParentEnd \<noteq> None \<or> lastEnd \<noteq> None then ''cascade from new start''
              else ''shift or maintenance''),
           howCreated =
             (if maxParentEnd \<noteq> None \<or> lastEnd \<noteq> None
              then ''Recalculated from new start: duration counted only in shift and outside maintenance (work pauses at shift end or during maintenance, resumes after).''
              else ''Recalculated: duration counted only in shift and outside maintenance; work pauses at shift end or during maintenance, resumes after, so end can be later.'')\<rparr>],
         [EndMoved (workOrderNumber wo) newEnd
            (if maxParentEnd \<noteq> None \<or> lastEnd \<noteq> None then ''recalculated from new start''
             else ''shift- and maintenance-aware: work paused at cutoff, resumed after'')])
      else ([], []))"

text \<open>
  The body of \<^verbatim>\<open>for (const woId of nonMaintenanceIds)\<close>. \<^verbatim>\<open>byNumber.get(woId)!\<close> asserts
  that the order exists; reading a field of \<^verbatim>\<open>undefined\<close> would raise a \<^verbatim>\<open>TypeError\<close>.
\<close>

definition candidateStartOf :: "(string \<rightharpoonup> workOrder) \<Rightarrow> (string \<rightharpoonup> workCenter) \<Rightarrow> placerState
    \<Rightarrow> workOrder \<Rightarrow> instant" where
  "candidateStartOf byNumber byName st wo =
     (let wc = byName (workCenterId wo);
          shs = (case wc of None \<Rightarrow> [] | Some c \<Rightarrow> shifts c);
          windows = (case wc of None \<Rightarrow> [] | Some c \<Rightarrow> maintenanceWindows c);
          lastEnd = lastEndOnCenter (scheduledByCenter st) (workCenterId wo);
          maxParentEnd = maxParentEndOf byNumber (newSchedule st) wo;
          orderStartFloor = startDate wo
      in getNextAvailableStart
           (max (max (orElse lastEnd orderStartFloor) (orElse maxParentEnd orderStartFloor))
                orderStartFloor)
           shs windows)"

definition placeOrder :: "(string \<rightharpoonup> workOrder) \<Rightarrow> (string \<rightharpoonup> workCenter) \<Rightarrow> placerState
    \<Rightarrow> string \<Rightarrow> reflowError + placerState" where
  "placeOrder byNumber byName st woId =
     (case byNumber woId of
        None \<Rightarrow> Inl TypeError
      | Some wo \<Rightarrow>
          let wc = byName (workCenterId wo);
              shs = (case wc of None \<Rightarrow> [] | Some c \<Rightarrow> shifts c);
              windows = (case wc of None \<Rightarrow> [] | Some c \<Rightarrow> maintenanceWindows c);
              lastEnd = lastEndOnCenter (scheduledByCenter st) (workCenterId wo);
              maxParentEnd = maxParentEndOf byNumber (newSchedule st) wo;
              candidateStart = candidateStartOf byNumber byName st wo;
              newEnd = calculateEndDateWithShiftsAndMaintenance candidateStart
                         (durationMinutes wo) shs (map toRange windows);
              sc = startChange wo candidateStart maxParentEnd lastEnd;
              ec = endChange wo newEnd maxParentEnd lastEnd
          in Inr \<lparr>scheduledByCenter =
                     (scheduledByCenter st)(workCenterId wo \<mapsto>
                        scheduledOn (scheduledByCenter st) (workCenterId wo) @ [(candidateStart, newEnd)]),
                   newSchedule = (newSchedule st)(woId \<mapsto> (candidateStart, newEnd)),
                   changesSoFar = changesSoFar st @ fst sc @ fst ec,
                   explanationParts = explanationParts st @ snd sc @ snd ec\<rparr>)"

fun placeAll :: "(string \<rightharpoonup> workOrder) \<Rightarrow> (string \<rightharpoonup> workCenter) \<Rightarrow> placerState
    \<Rightarrow> string list \<Rightarrow> reflowError + placerState" where
  "placeAll byNumber byName st [] = Inr st"
| "placeAll byNumber byName st (woId # rest) =
     (case placeOrder byNumber byName st woId of
        Inl e \<Rightarrow> Inl e
      | Inr st' \<Rightarrow> placeAll byNumber byName st' rest)"

fun selectNonMaintenance :: "(string \<rightharpoonup> workOrder) \<Rightarrow> string list \<Rightarrow> reflowError + string list" where
  "selectNonMaintenance byNumber [] = Inr []"
| "selectNonMaintenance byNumber (i # rest) =
     (case byNumber i of
        None \<Rightarrow> Inl TypeError
      | Some wo \<Rightarrow>
          (case selectNonMaintenance byNumber rest of
             Inl e \<Rightarrow> Inl e
           | Inr ids \<Rightarrow> Inr (if isMaintenance wo then ids else i # ids)))"

definition updateOrder :: "(string \<rightharpoonup> instant \<times> instant) \<Rightarrow> workOrder \<Rightarrow> workOrder" where
  "updateOrder sched wo =
     (if isMaintenance wo then wo
      else case sched (workOrderNumber wo) of
             None \<Rightarrow> wo
           | Some (s, e) \<Rightarrow> wo\<lparr>startDate := s, endDate := e\<rparr>)"

definition initialState :: placerState where
  "initialState = \<lparr>scheduledByCenter = Map.empty, newSchedule = Map.empty,
                    changesSoFar = [], explanationParts = []\<rparr>"

definition reflow :: "workOrder list \<Rightarrow> workCenter list \<Rightarrow> (reflowError + reflowResult) option" where
  "reflow wos wcs =
     (case topologicalOrder wos of
        Inl e \<Rightarrow> Some (Inl e)
      | Inr orderIds \<Rightarrow>
          (case selectNonMaintenance (indexByNumber wos) orderIds of
             Inl e \<Rightarrow> Some (Inl e)
           | Inr nonMaintenanceIds \<Rightarrow>
               (case placeAll (indexByNumber wos) (indexByName wcs) initialState nonMaintenanceIds of
                  Inl e \<Rightarrow> Some (Inl e)
                | Inr st \<Rightarrow>
                    let updated = map (updateOrder (newSchedule st)) wos
                    in (case validateSchedule updated wcs of
                          None \<Rightarrow> None
                        | Some validation \<Rightarrow>
                            if \<not> valid validation
                            then Some (Inl (InvalidSchedule (errors validation)))
                            else Some (Inr \<lparr>updatedWorkOrders = updated,
                                            changes = changesSoFar st,
                                            explanationOf =
                                              (if explanationParts st \<noteq> []
                                               then Explained (explanationParts st)
                                               else NoChangesRequired)\<rparr>)))))"

section \<open>The zero-shift fallback\<close>

text \<open>
  Claim C8. When the shift list is empty, the time-walk returns the start plus
  \<open>durationMinutes\<close> of plain wall-clock time (\<open>60000\<close> milliseconds per minute), whatever the
  maintenance ranges are: the result is the same as with no range at all, and the
  segment-producing variant returns the one segment from the start to that end.
\<close>

theorem zero_shift_fallback:
  "shs = [] \<Longrightarrow>
     calculateEndDateWithShiftsAndMaintenance startD duration shs ranges = startD + duration * 60000
   \<and> calculateEndDateWithShiftsAndMaintenance startD duration shs ranges
       = calculateEndDateWithShiftsAndMaintenance startD duration shs []
   \<and> getWorkingSegments startD duration shs ranges = [(startD, startD + duration * 60000)]"
  by (simp add: calculateEndDateWithShiftsAndMaintenance_def getWorkingSegments_def plusMinutes_def)

theorem zero_shift_fallback_witness:
  "calculateEndDateWithShiftsAndMaintenance 403200000 120 []
       [\<lparr>rangeStart = 403200000, rangeEnd = 410400000\<rparr>] = 410400000
   \<and> calculateEndDateWithShiftsAndMaintenance 403200000 120 []
       [\<lparr>rangeStart = 403200000, rangeEnd = 410400000\<rparr>]
       = calculateEndDateWithShiftsAndMaintenance 403200000 120 [] []
   \<and> getWorkingSegments 403200000 120 [] [\<lparr>rangeStart = 403200000, rangeEnd = 410400000\<rparr>]
       = [(403200000, 410400000)]"
  using zero_shift_fallback [of "[]" 403200000 120 "[\<lparr>rangeStart = 403200000, rangeEnd = 410400000\<rparr>]"]
  by simp

section \<open>The two maintenance checks\<close>

















definition mondayShifts :: "shift list" where
  "mondayShifts = [\<lparr>dayOfWeek = 1, startHour = 8, endHour = 17\<rparr>]"




section \<open>Round trip\<close>

lemma validateSchedule_valid:
  "validateSchedule wos wcs = Some v \<Longrightarrow> valid v \<Longrightarrow> v = \<lparr>valid = True, errors = []\<rparr>"
  by (auto simp: validateSchedule_def Let_def split: option.splits)

text \<open>
  Claim C4. Whenever reflow returns a result (no error, and the validator returned), the
  validator applied to the result's \<open>updatedWorkOrders\<close> and the same work centers reports
  valid, with an empty error list.
\<close>

theorem reflow_round_trip:
  "reflow wos wcs = Some (Inr r)
    \<Longrightarrow> validateSchedule (updatedWorkOrders r) wcs = Some \<lparr>valid = True, errors = []\<rparr>"
  unfolding reflow_def
  by (auto simp: Let_def split: sum.splits option.splits if_splits dest: validateSchedule_valid)

definition weekShifts :: "shift list" where
  "weekShifts = [\<lparr>dayOfWeek = 1, startHour = 8, endHour = 17\<rparr>,
     \<lparr>dayOfWeek = 2, startHour = 8, endHour = 17\<rparr>]"

definition lateOrder :: workOrder where
  "lateOrder = \<lparr>workOrderNumber = ''WO-1'', workCenterId = ''Line2'', startDate = 403200000,
     endDate = 410400000, durationMinutes = 120, isMaintenance = False, dependsOnWorkOrderIds = []\<rparr>"

definition shiftCenter :: workCenter where
  "shiftCenter = \<lparr>name = ''Line2'', shifts = weekShifts, maintenanceWindows = []\<rparr>"

definition lateOrderResult :: reflowResult where
  "lateOrderResult =
     \<lparr>updatedWorkOrders = [lateOrder\<lparr>endDate := 464400000\<rparr>],
      changes = [\<lparr>changeWorkOrderId = ''WO-1'', changedField = EndDateField,
           oldValue = 410400000, newValue = 464400000,
           changeReason = ''shift or maintenance'',
           howCreated =
             ''Recalculated: duration counted only in shift and outside maintenance; work pauses at shift end or during maintenance, resumes after, so end can be later.''\<rparr>],
      explanationOf = Explained [EndMoved ''WO-1'' 464400000
           ''shift- and maintenance-aware: work paused at cutoff, resumed after'']\<rparr>"

lemma reflow_lateOrder: "reflow [lateOrder] [shiftCenter] = Some (Inr lateOrderResult)"
  by code_simp

text \<open>
  The example: 120 minutes from Monday 1970-01-05 16:00 on a center with the shift 08:00-17:00
  on Monday and Tuesday; the order ends on Tuesday 09:00.
\<close>

theorem reflow_round_trip_witness:
  "reflow [lateOrder] [shiftCenter] = Some (Inr lateOrderResult)
   \<and> validateSchedule (updatedWorkOrders lateOrderResult) [shiftCenter]
       = Some \<lparr>valid = True, errors = []\<rparr>"
  using reflow_round_trip [OF reflow_lateOrder] reflow_lateOrder by simp

section \<open>The result of reflow\<close>

lemma reflow_result_cases:
  assumes "reflow wos wcs = Some (Inr r)"
  shows "\<exists>orderIds nonMaintenanceIds st.
    topologicalOrder wos = Inr orderIds
    \<and> selectNonMaintenance (indexByNumber wos) orderIds = Inr nonMaintenanceIds
    \<and> placeAll (indexByNumber wos) (indexByName wcs) initialState nonMaintenanceIds = Inr st
    \<and> updatedWorkOrders r = map (updateOrder (newSchedule st)) wos
    \<and> changes r = changesSoFar st
    \<and> validateSchedule (updatedWorkOrders r) wcs = Some \<lparr>valid = True, errors = []\<rparr>"
proof -
  from assms obtain orderIds where t: "topologicalOrder wos = Inr orderIds"
    by (cases "topologicalOrder wos") (auto simp: reflow_def)
  from assms t obtain ids where n: "selectNonMaintenance (indexByNumber wos) orderIds = Inr ids"
    by (cases "selectNonMaintenance (indexByNumber wos) orderIds") (auto simp: reflow_def)
  from assms t n obtain st where p: "placeAll (indexByNumber wos) (indexByName wcs) initialState ids = Inr st"
    by (cases "placeAll (indexByNumber wos) (indexByName wcs) initialState ids") (auto simp: reflow_def)
  from assms t n p obtain v where v: "validateSchedule (map (updateOrder (newSchedule st)) wos) wcs = Some v"
    by (cases "validateSchedule (map (updateOrder (newSchedule st)) wos) wcs") (auto simp: reflow_def Let_def)
  from assms t n p v have ok: "valid v"
    and r: "r = \<lparr>updatedWorkOrders = map (updateOrder (newSchedule st)) wos,
                 changes = changesSoFar st,
                 explanationOf = (if explanationParts st \<noteq> [] then Explained (explanationParts st)
                                  else NoChangesRequired)\<rparr>"
    by (auto simp: reflow_def Let_def split: if_splits)
  from validateSchedule_valid [OF v ok] v r t n p show ?thesis by simp
qed

lemma updateOrder_fields:
  "\<exists>s e. updateOrder sched wo = wo\<lparr>startDate := s, endDate := e\<rparr>"
proof (cases "isMaintenance wo \<or> sched (workOrderNumber wo) = None")
  case True
  then have "updateOrder sched wo = wo\<lparr>startDate := startDate wo, endDate := endDate wo\<rparr>"
    by (auto simp: updateOrder_def)
  then show ?thesis by blast
next
  case False
  then obtain a b where "sched (workOrderNumber wo) = Some (a, b)" by auto
  with False have "updateOrder sched wo = wo\<lparr>startDate := a, endDate := b\<rparr>"
    by (simp add: updateOrder_def)
  then show ?thesis by blast
qed

section \<open>No overlap on a work center\<close>

lemma parentStep_mono: "set (snd st) \<subseteq> set (snd (parentStep byNumber wo i st))"
  by (cases st) (auto simp: parentStep_def split: option.splits)

lemma parentStep_fold_mono: "set (snd st) \<subseteq> set (snd (fold (parentStep byNumber wo) ds st))"
proof (induction ds arbitrary: st)
  case Nil
  then show ?case by simp
next
  case (Cons d ds)
  from parentStep_mono [of st byNumber wo d] Cons [of "parentStep byNumber wo d st"]
  show ?case by auto
qed

lemma scanParents_mono: "set es \<subseteq> set (snd (scanParents byNumber wo es))"
  using parentStep_fold_mono [of "(None, es)" byNumber wo "dependsOnWorkOrderIds wo"]
  by (simp add: scanParents_def)

lemma dependencyStep_mono: "set es \<subseteq> set (dependencyStep byNumber wo es)"
proof (cases "scanParents byNumber wo es")
  case (Pair m es')
  with scanParents_mono [of es byNumber wo] have "set es \<subseteq> set es'" by simp
  with Pair show ?thesis
    by (auto simp: dependencyStep_def split: option.splits)
qed

lemma dependencyStep_fold_mono: "set es \<subseteq> set (fold (dependencyStep byNumber) ws es)"
proof (induction ws arbitrary: es)
  case Nil
  then show ?case by simp
next
  case (Cons w ws)
  from dependencyStep_mono [of es byNumber w] Cons [of "dependencyStep byNumber w es"]
  show ?case by auto
qed

lemma checkDependencies_mono: "set errs \<subseteq> set (checkDependencies wos errs)"
  by (simp add: checkDependencies_def dependencyStep_fold_mono)

lemma shiftStep_mono: "shiftStep wcs wo errs = Some errs' \<Longrightarrow> set errs \<subseteq> set errs'"
  by (auto simp: shiftStep_def Let_def split: option.splits if_splits)

lemma checkShifts_mono: "checkShifts wos wcs errs = Some errs' \<Longrightarrow> set errs \<subseteq> set errs'"
proof (induction wos arbitrary: errs)
  case Nil
  then show ?case by simp
next
  case (Cons wo rest)
  from Cons.prems(1) obtain e1 where s: "shiftStep wcs wo errs = Some e1"
    and r: "checkShifts rest wcs e1 = Some errs'"
    by (auto split: option.splits)
  from Cons.IH [OF r] shiftStep_mono [OF s] show ?case by blast
qed

lemma validateSchedule_conflict_free:
  assumes "validateSchedule wos wcs = Some \<lparr>valid = True, errors = []\<rparr>"
  shows "checkWorkCenterConflicts wos [] = []"
proof -
  from assms have "checkShifts wos wcs (checkDependencies wos (checkWorkCenterConflicts wos [])) = Some []"
    by (auto simp: validateSchedule_def checkMaintenance_def Let_def split: option.splits)
  from checkShifts_mono [OF this] checkDependencies_mono [of "checkWorkCenterConflicts wos []" wos]
  show ?thesis by auto
qed

lemma groupStep_fold:
  "map_of (fold groupStep ws acc) c =
     (if \<exists>w \<in> set ws. workCenterId w = c
      then Some ((case map_of acc c of None \<Rightarrow> [] | Some l \<Rightarrow> l) @ filter (\<lambda>w. workCenterId w = c) ws)
      else map_of acc c)"
proof (induction ws arbitrary: acc)
  case Nil
  then show ?case by simp
next
  case (Cons w ws)
  have step: "map_of (groupStep w acc) c =
      (if workCenterId w = c then Some ((case map_of acc c of None \<Rightarrow> [] | Some l \<Rightarrow> l) @ [w])
       else map_of acc c)"
    by (simp add: groupStep_def update_conv')
  show ?case
    by (simp add: Cons step)
qed

lemma groupByCenter_member:
  assumes "w \<in> set wos"
  shows "(workCenterId w, filter (\<lambda>x. workCenterId x = workCenterId w) wos) \<in> set (groupByCenter wos)"
proof -
  from assms have "map_of (groupByCenter wos) (workCenterId w)
      = Some (filter (\<lambda>x. workCenterId x = workCenterId w) wos)"
    by (auto simp: groupByCenter_def groupStep_fold)
  then show ?thesis by (rule map_of_SomeD)
qed

lemma adjacentConflicts_sorted:
  "adjacentConflicts c xs = [] \<Longrightarrow> sorted (map startDate xs)
    \<Longrightarrow> sorted_wrt (\<lambda>a b. endDate a \<le> startDate b) xs"
proof (induction c xs rule: adjacentConflicts.induct)
  case (1 c a b rest)
  from "1.prems" have ab: "endDate a \<le> startDate b" and rest: "adjacentConflicts c (b # rest) = []"
    by (auto split: if_splits)
  from "1.prems"(2) have sb: "sorted (map startDate (b # rest))" by simp
  from "1.prems"(2) have le: "\<forall>y \<in> set rest. startDate b \<le> startDate y" by simp
  from "1.IH" [OF rest sb] ab le show ?case by auto
next
  case (2 c a)
  then show ?case by simp
next
  case (3 c)
  then show ?case by simp
qed

lemma sorted_wrt_insort_key_sym:
  assumes "\<And>a b. R a b \<Longrightarrow> R b a"
  shows "sorted_wrt R (insort_key f x xs) = sorted_wrt R (x # xs)"
  using assms by (induction xs) (auto simp: set_insort_key)

lemma sorted_wrt_sort_key_sym:
  assumes "\<And>a b. R a b \<Longrightarrow> R b a"
  shows "sorted_wrt R (sort_key f xs) = sorted_wrt R xs"
proof (induction xs)
  case Nil
  then show ?case by simp
next
  case (Cons x xs)
  have "sort_key f (x # xs) = insort_key f x (sort_key f xs)"
    by (simp add: sort_key_def)
  with Cons sorted_wrt_insort_key_sym [of R f x "sort_key f xs", OF assms]
  show ?case by simp
qed

lemma sorted_wrt_filter_iff:
  "sorted_wrt R (filter Q xs) = sorted_wrt (\<lambda>a b. Q a \<and> Q b \<longrightarrow> R a b) xs"
  by (induction xs) auto

definition apart :: "workOrder \<Rightarrow> workOrder \<Rightarrow> bool" where
  "apart a b = (endDate a \<le> startDate b \<or> endDate b \<le> startDate a)"

lemma conflict_free_pairs:
  assumes "checkWorkCenterConflicts wos [] = []" and "i < j" and "j < length wos"
    and "workCenterId (wos ! i) = workCenterId (wos ! j)"
  shows "apart (wos ! i) (wos ! j)"
proof -
  let ?c = "workCenterId (wos ! i)"
  let ?group = "filter (\<lambda>x. workCenterId x = ?c) wos"
  from assms(2,3) have "wos ! i \<in> set wos" by simp
  from groupByCenter_member [OF this] have "(?c, ?group) \<in> set (groupByCenter wos)" .
  with assms(1) have "adjacentConflicts ?c (sort_key startDate ?group) = []"
    by (auto simp: checkWorkCenterConflicts_def)
  from adjacentConflicts_sorted [OF this]
  have "sorted_wrt (\<lambda>a b. endDate a \<le> startDate b) (sort_key startDate ?group)" by simp
  then have "sorted_wrt apart (sort_key startDate ?group)"
    by (rule sorted_wrt_mono_rel [rotated]) (simp add: apart_def)
  then have "sorted_wrt apart ?group"
    by (subst (asm) sorted_wrt_sort_key_sym) (auto simp: apart_def)
  then have "sorted_wrt (\<lambda>a b. workCenterId a = ?c \<and> workCenterId b = ?c \<longrightarrow> apart a b) wos"
    by (simp add: sorted_wrt_filter_iff)
  with assms(2,3,4) show ?thesis
    by (auto simp: sorted_wrt_iff_nth_less)
qed


lemma reflow_round_trip_lemma:
  "reflow wos wcs = Some (Inr r)
    \<Longrightarrow> validateSchedule (updatedWorkOrders r) wcs = Some \<lparr>valid = True, errors = []\<rparr>"
  using reflow_result_cases by blast

text \<open>
  Claim C3. When reflow returns a result, any two orders at different positions of
  \<open>updatedWorkOrders\<close> that share a work center are apart: one ends no later than the other
  starts, so their half-open intervals \<open>[start, end)\<close> have no instant in common. This holds for every
  pair of orders, maintenance or not, and so for the non-maintenance pairs of the claim: the
  result passed the validator, whose conflict check sorts each center's orders by start and
  compares neighbours.
\<close>

theorem reflow_no_overlap:
  assumes "reflow wos wcs = Some (Inr r)" and "i < j" and "j < length (updatedWorkOrders r)"
    and "workCenterId (updatedWorkOrders r ! i) = workCenterId (updatedWorkOrders r ! j)"
  shows "apart (updatedWorkOrders r ! i) (updatedWorkOrders r ! j)
    \<and> {startDate (updatedWorkOrders r ! i) ..< endDate (updatedWorkOrders r ! i)}
        \<inter> {startDate (updatedWorkOrders r ! j) ..< endDate (updatedWorkOrders r ! j)} = {}"
proof -
  from reflow_round_trip_lemma [OF assms(1)]
  have "checkWorkCenterConflicts (updatedWorkOrders r) [] = []"
    by (rule validateSchedule_conflict_free)
  from conflict_free_pairs [OF this assms(2,3,4)]
  show ?thesis by (auto simp: apart_def)
qed

definition firstOrder :: workOrder where
  "firstOrder = \<lparr>workOrderNumber = ''WO-A'', workCenterId = ''Line2'', startDate = 374400000,
     endDate = 378000000, durationMinutes = 60, isMaintenance = False, dependsOnWorkOrderIds = []\<rparr>"

definition secondOrder :: workOrder where
  "secondOrder = \<lparr>workOrderNumber = ''WO-B'', workCenterId = ''Line2'', startDate = 376200000,
     endDate = 379800000, durationMinutes = 60, isMaintenance = False, dependsOnWorkOrderIds = []\<rparr>"

definition conflictResult :: reflowResult where
  "conflictResult =
     \<lparr>updatedWorkOrders = [firstOrder, secondOrder\<lparr>startDate := 378000000, endDate := 381600000\<rparr>],
      changes =
        [\<lparr>changeWorkOrderId = ''WO-B'', changedField = StartDateField,
           oldValue = 376200000, newValue = 378000000,
           changeReason = ''work center conflict'',
           howCreated = ''Earliest slot after prior order on same center; aligned to shift/maintenance.''\<rparr>,
         \<lparr>changeWorkOrderId = ''WO-B'', changedField = EndDateField,
           oldValue = 379800000, newValue = 381600000,
           changeReason = ''cascade from new start'',
           howCreated = ''Recalculated from new start: duration counted only in shift and outside maintenance (work pauses at shift end or during maintenance, resumes after).''\<rparr>],
      explanationOf = Explained [StartMoved ''WO-B'' 378000000 ''after prior order on same center'',
                                 EndMoved ''WO-B'' 381600000 ''recalculated from new start'']\<rparr>"

lemma reflow_conflict: "reflow [firstOrder, secondOrder] [shiftCenter] = Some (Inr conflictResult)"
  by code_simp

text \<open>
  The example: two orders of 60 minutes on the same center, stored at Monday 08:00-09:00 and
  08:30-09:30; reflow moves the second to 09:00-10:00.
\<close>

theorem reflow_no_overlap_witness:
  "reflow [firstOrder, secondOrder] [shiftCenter] = Some (Inr conflictResult)
   \<and> (0::nat) < 1 \<and> 1 < length (updatedWorkOrders conflictResult)
   \<and> workCenterId (updatedWorkOrders conflictResult ! 0) = workCenterId (updatedWorkOrders conflictResult ! 1)
   \<and> apart (updatedWorkOrders conflictResult ! 0) (updatedWorkOrders conflictResult ! 1)
   \<and> {startDate (updatedWorkOrders conflictResult ! 0) ..< endDate (updatedWorkOrders conflictResult ! 0)}
        \<inter> {startDate (updatedWorkOrders conflictResult ! 1) ..< endDate (updatedWorkOrders conflictResult ! 1)} = {}"
proof -
  have c: "workCenterId (updatedWorkOrders conflictResult ! 0) = workCenterId (updatedWorkOrders conflictResult ! 1)"
    by (simp add: conflictResult_def firstOrder_def secondOrder_def)
  have l: "1 < length (updatedWorkOrders conflictResult)"
    by (simp add: conflictResult_def)
  from reflow_no_overlap [OF reflow_conflict _ l c] reflow_conflict c l show ?thesis by simp
qed

section \<open>Kahn's algorithm\<close>

text \<open>
  The number of entries for \<open>k\<close> in the child lists of the ids \<open>ns\<close>: the in-degree that \<open>k\<close>
  still owes to those ids.
\<close>

definition edgesInto :: "(string \<times> string list) list \<Rightarrow> string list \<Rightarrow> string \<Rightarrow> nat" where
  "edgesInto children ns k = sum_list (map (\<lambda>n. count_list (childrenOf children n) k) ns)"

lemma sum_list_split_distinct:
  "distinct xs \<Longrightarrow> n \<in> set xs
    \<Longrightarrow> sum_list (map f xs) = (f n :: nat) + sum_list (map f (filter (\<lambda>m. m \<noteq> n) xs))"
proof (induction xs)
  case Nil
  then show ?case by simp
next
  case (Cons x xs)
  show ?case
  proof (cases "x = n")
    case True
    with Cons.prems have "filter (\<lambda>m. m \<noteq> n) xs = xs"
      by (auto intro: filter_True)
    with True show ?thesis by simp
  next
    case False
    with Cons show ?thesis by simp
  qed
qed

lemma visitChildren_spec:
  assumes "\<forall>k \<in> set cs. \<exists>v. map_of inDegree k = Some v \<and> int (count_list cs k) \<le> v"
    and "fold visitChild cs (inDegree, queue) = (inDegree', queue')"
  shows "(\<forall>k. map_of inDegree' k = map_option (\<lambda>v. v - int (count_list cs k)) (map_of inDegree k))
    \<and> (\<exists>pushed. queue' = queue @ pushed \<and> distinct pushed
          \<and> set pushed = {k \<in> set cs. map_of inDegree k = Some (int (count_list cs k))})"
  using assms
proof (induction cs arbitrary: inDegree queue)
  case Nil
  then show ?case by (auto simp: option.map_ident map_option.identity)
next
  case (Cons c cs)
  from Cons.prems(1) obtain v where v: "map_of inDegree c = Some v"
    and vle: "1 + int (count_list cs c) \<le> v" by auto
  define i1 where "i1 = AList.update c (v - 1) inDegree"
  define q1 where "q1 = (if v - 1 = 0 then queue @ [c] else queue)"
  have step: "visitChild c (inDegree, queue) = (i1, q1)"
    by (simp add: visitChild_def v i1_def q1_def Let_def)
  have m1: "map_of i1 k = (if k = c then Some (v - 1) else map_of inDegree k)" for k
    by (simp add: i1_def update_conv')
  have pre: "\<forall>k \<in> set cs. \<exists>w. map_of i1 k = Some w \<and> int (count_list cs k) \<le> w"
  proof
    fix k assume k: "k \<in> set cs"
    show "\<exists>w. map_of i1 k = Some w \<and> int (count_list cs k) \<le> w"
    proof (cases "k = c")
      case True
      with vle show ?thesis by (simp add: m1)
    next
      case False
      with Cons.prems(1) k show ?thesis by (auto simp: m1)
    qed
  qed
  from Cons.prems(2) step have "fold visitChild cs (i1, q1) = (inDegree', queue')" by simp
  from Cons.IH [OF pre this]
  have deg: "\<forall>k. map_of inDegree' k = map_option (\<lambda>v. v - int (count_list cs k)) (map_of i1 k)"
    and "\<exists>pushed. queue' = q1 @ pushed \<and> distinct pushed
          \<and> set pushed = {k \<in> set cs. map_of i1 k = Some (int (count_list cs k))}"
    by auto
  then obtain p1 where q': "queue' = q1 @ p1" and d1: "distinct p1"
    and s1: "set p1 = {k \<in> set cs. map_of i1 k = Some (int (count_list cs k))}" by blast
  have degs: "\<forall>k. map_of inDegree' k = map_option (\<lambda>v. v - int (count_list (c # cs) k)) (map_of inDegree k)"
    using deg v by (auto simp: m1)
  show ?case
  proof (cases "v - 1 = 0")
    case True
    with vle have c0: "count_list cs c = 0" by simp
    then have cn: "c \<notin> set cs" by (simp add: count_list_0_iff)
    from True q' have "queue' = queue @ (c # p1)" by (simp add: q1_def)
    moreover from cn s1 d1 have "distinct (c # p1)" by auto
    moreover have "set (c # p1) = {k \<in> set (c # cs). map_of inDegree k = Some (int (count_list (c # cs) k))}"
    proof -
      have "k \<in> set (c # p1) \<longleftrightarrow>
          k \<in> set (c # cs) \<and> map_of inDegree k = Some (int (count_list (c # cs) k))" for k
      proof (cases "k = c")
        case kc: True
        from True have "v = 1" by simp
        with kc v c0 show ?thesis by simp
      next
        case False
        then have "map_of i1 k = map_of inDegree k" by (simp add: m1)
        with False s1 show ?thesis by simp
      qed
      then show ?thesis by blast
    qed
    ultimately show ?thesis using degs by blast
  next
    case False
    from False q' have "queue' = queue @ p1" by (simp add: q1_def)
    moreover have "set p1 = {k \<in> set (c # cs). map_of inDegree k = Some (int (count_list (c # cs) k))}"
    proof -
      have cin: "c \<in> set cs" if "v - 1 = int (count_list cs c)"
        using that False by (cases "count_list cs c = 0") (auto simp: count_list_0_iff)
      have "k \<in> set p1 \<longleftrightarrow>
          k \<in> set (c # cs) \<and> map_of inDegree k = Some (int (count_list (c # cs) k))" for k
      proof (cases "k = c")
        case True
        have "c \<in> set p1 \<longleftrightarrow> c \<in> set cs \<and> v - 1 = int (count_list cs c)"
          by (simp add: s1 m1)
        also have "\<dots> \<longleftrightarrow> v - 1 = int (count_list cs c)"
          using cin by blast
        also have "\<dots> \<longleftrightarrow> map_of inDegree c = Some (int (count_list (c # cs) c))"
          using v by auto
        finally show ?thesis using True by simp
      next
        case False
        then have "map_of i1 k = map_of inDegree k" by (simp add: m1)
        with False s1 show ?thesis by simp
      qed
      then show ?thesis by blast
    qed
    ultimately show ?thesis using degs d1 by blast
  qed
qed


text \<open>
  The invariant of the queue loop, for the distinct list \<open>K\<close> of the order ids: the ids
  dequeued or queued are distinct; the in-degree of an id counts its entries in the child lists
  of the ids not yet dequeued; and an id has in-degree zero exactly when it was dequeued or is
  queued.
\<close>

definition kahnInv :: "string list \<Rightarrow> (string \<times> string list) list \<Rightarrow> (string \<times> int) list
    \<Rightarrow> string list \<Rightarrow> string list \<Rightarrow> bool" where
  "kahnInv K children inDegree queue result \<longleftrightarrow>
     distinct (result @ queue) \<and> set (result @ queue) \<subseteq> set K
     \<and> (\<forall>k \<in> set K. map_of inDegree k
            = Some (int (edgesInto children (filter (\<lambda>n. n \<notin> set result) K) k)))
     \<and> (\<forall>k \<in> set K. map_of inDegree k = Some 0 \<longleftrightarrow> k \<in> set (result @ queue))"

lemma kahnInv_step:
  assumes K: "distinct K" and sub: "\<And>m. set (childrenOf children m) \<subseteq> set K"
    and inv: "kahnInv K children inDegree (n # queue) result"
    and step: "fold visitChild (childrenOf children n) (inDegree, queue) = (inDegree', queue')"
  shows "kahnInv K children inDegree' queue' (result @ [n])"
proof -
  let ?cs = "childrenOf children n"
  let ?U = "filter (\<lambda>m. m \<notin> set result) K"
  let ?U' = "filter (\<lambda>m. m \<notin> set (result @ [n])) K"
  from inv [unfolded kahnInv_def]
  have d0: "distinct (result @ n # queue)" and s0: "set (result @ n # queue) \<subseteq> set K"
    by blast+
  from inv [unfolded kahnInv_def]
  have deg0: "map_of inDegree k = Some (int (edgesInto children ?U k))" if "k \<in> set K" for k
    using that by blast
  from inv [unfolded kahnInv_def]
  have z0: "map_of inDegree k = Some 0 \<longleftrightarrow> k \<in> set (result @ n # queue)" if "k \<in> set K" for k
    using that by blast
  from s0 have nK: "n \<in> set K" by simp
  from d0 have nr: "n \<notin> set result" by simp
  from nK nr have nU: "n \<in> set ?U" by simp
  from K have dU: "distinct ?U" by simp
  have U': "?U' = filter (\<lambda>m. m \<noteq> n) ?U"
    by (simp add: conj_commute)
  have E: "edgesInto children ?U k = count_list ?cs k + edgesInto children ?U' k" for k
    unfolding edgesInto_def U'
    by (rule sum_list_split_distinct [OF dU nU])
  have pre: "\<forall>k \<in> set ?cs. \<exists>v. map_of inDegree k = Some v \<and> int (count_list ?cs k) \<le> v"
  proof
    fix k assume "k \<in> set ?cs"
    with sub have "k \<in> set K" by blast
    from deg0 [OF this] E [of k] show "\<exists>v. map_of inDegree k = Some v \<and> int (count_list ?cs k) \<le> v"
      by simp
  qed
  from visitChildren_spec [OF pre step]
  have deg1: "\<And>k. map_of inDegree' k = map_option (\<lambda>v. v - int (count_list ?cs k)) (map_of inDegree k)"
    and "\<exists>pushed. queue' = queue @ pushed \<and> distinct pushed
          \<and> set pushed = {k \<in> set ?cs. map_of inDegree k = Some (int (count_list ?cs k))}"
    by auto
  then obtain pushed where q': "queue' = queue @ pushed" and dp: "distinct pushed"
    and sp: "set pushed = {k \<in> set ?cs. map_of inDegree k = Some (int (count_list ?cs k))}" by blast
  have deg': "map_of inDegree' k = Some (int (edgesInto children ?U' k))" if "k \<in> set K" for k
    using deg1 [of k] deg0 [OF that] E [of k] by simp
  have pK: "set pushed \<subseteq> set K" using sp sub by blast
  have fresh: "k \<notin> set (result @ n # queue)" if "k \<in> set pushed" for k
  proof -
    from that sp have kc: "k \<in> set ?cs" and m: "map_of inDegree k = Some (int (count_list ?cs k))"
      by auto
    from kc have "count_list ?cs k \<noteq> 0" by (simp add: count_list_0_iff)
    with m have "map_of inDegree k \<noteq> Some 0" by simp
    with z0 [of k] pK that show ?thesis by blast
  qed
  have zero': "map_of inDegree' k = Some 0 \<longleftrightarrow> k \<in> set ((result @ [n]) @ queue')" if kK: "k \<in> set K" for k
  proof
    assume "map_of inDegree' k = Some 0"
    with deg' [OF kK] have u0: "edgesInto children ?U' k = 0" by simp
    show "k \<in> set ((result @ [n]) @ queue')"
    proof (cases "edgesInto children ?U k = 0")
      case True
      with deg0 [OF kK] z0 [OF kK] have "k \<in> set (result @ n # queue)" by simp
      then show ?thesis by (auto simp: q')
    next
      case False
      from E [of k] u0 have c: "count_list ?cs k = edgesInto children ?U k" by simp
      have "k \<in> set ?cs"
      proof (rule ccontr)
        assume "k \<notin> set ?cs"
        then have "count_list ?cs k = 0" by (simp add: count_list_0_iff)
        with c False show False by simp
      qed
      with deg0 [OF kK] c have "k \<in> set pushed" by (simp add: sp)
      then show ?thesis by (simp add: q')
    qed
  next
    assume "k \<in> set ((result @ [n]) @ queue')"
    then consider "k \<in> set (result @ n # queue)" | "k \<in> set pushed" by (auto simp: q')
    then have "edgesInto children ?U' k = 0"
    proof cases
      case 1
      with z0 [OF kK] deg0 [OF kK] have "edgesInto children ?U k = 0" by simp
      with E [of k] show ?thesis by simp
    next
      case 2
      with sp have "map_of inDegree k = Some (int (count_list ?cs k))" by simp
      with deg0 [OF kK] have "edgesInto children ?U k = count_list ?cs k" by simp
      with E [of k] show ?thesis by simp
    qed
    with deg' [OF kK] show "map_of inDegree' k = Some 0" by simp
  qed
  have dist': "distinct ((result @ [n]) @ queue')"
    using d0 dp fresh by (auto simp: q')
  have sub': "set ((result @ [n]) @ queue') \<subseteq> set K"
    using s0 pK by (auto simp: q')
  show ?thesis
    unfolding kahnInv_def using dist' sub' deg' zero' by blast
qed

lemma kahnLoop_final:
  "distinct K \<Longrightarrow> (\<And>m. set (childrenOf children m) \<subseteq> set K)
    \<Longrightarrow> kahnInv K children inDegree queue result
    \<Longrightarrow> kahnLoop children inDegree queue result = (finalDegree, res)
    \<Longrightarrow> kahnInv K children finalDegree [] res"
proof (induction children inDegree queue result rule: kahnLoop.induct)
  case (1 children inDegree result)
  then show ?case by simp
next
  case (2 children inDegree n queue result)
  obtain i1 q1 where f: "fold visitChild (childrenOf children n) (inDegree, queue) = (i1, q1)"
    by (cases "fold visitChild (childrenOf children n) (inDegree, queue)")
  from "2.prems"(4) f have l: "kahnLoop children i1 q1 (result @ [n]) = (finalDegree, res)" by simp
  have "kahnInv K children i1 q1 (result @ [n])"
    by (rule kahnInv_step [OF "2.prems"(1,2,3) f])
  from "2.IH" [OF f [symmetric] "2.prems"(1,2) this l] show ?case .
qed

text \<open>The graph that \<^verbatim>\<open>topologicalOrder\<close> builds: in-degrees and child lists agree.\<close>

lemma indexByNumber_fold:
  "fold (\<lambda>wo m. m(workOrderNumber wo \<mapsto> wo)) wos m0 k = None
    \<longleftrightarrow> m0 k = None \<and> k \<notin> workOrderNumber ` set wos"
  by (induction wos arbitrary: m0) auto

lemma indexByNumber_None_iff: "indexByNumber wos k = None \<longleftrightarrow> k \<notin> workOrderNumber ` set wos"
  by (simp add: indexByNumber_def indexByNumber_fold)

lemma initDegrees_fold:
  "map_of (fold (\<lambda>wo inDegree. AList.update (workOrderNumber wo) 0 inDegree) wos acc) k
    = (if k \<in> workOrderNumber ` set wos then Some (0::int) else map_of acc k)"
  by (induction wos arbitrary: acc) (auto simp: update_conv')

lemma initDegrees_distinct_fold:
  "distinct (map fst acc)
    \<Longrightarrow> distinct (map fst (fold (\<lambda>wo inDegree. AList.update (workOrderNumber wo) (0::int) inDegree) wos acc))"
  by (induction wos arbitrary: acc) (auto simp: distinct_update)

lemma initChildren_fold:
  "map_of (fold (\<lambda>wo children. AList.update (workOrderNumber wo) [] children) wos acc) k
    = (if k \<in> workOrderNumber ` set wos then Some [] else map_of acc k)"
  by (induction wos arbitrary: acc) (auto simp: update_conv')

lemma childrenOf_initChildren: "childrenOf (initChildren wos) n = []"
  by (simp add: childrenOf_def initChildren_def initChildren_fold)

definition graphOk :: "string list \<Rightarrow> (string \<times> int) list \<Rightarrow> (string \<times> string list) list \<Rightarrow> bool" where
  "graphOk K inDegree children \<longleftrightarrow>
     (\<forall>k \<in> set K. map_of inDegree k = Some (int (edgesInto children K k)))
     \<and> (\<forall>n. set (childrenOf children n) \<subseteq> set K)
     \<and> fst ` set inDegree \<subseteq> set K
     \<and> distinct (map fst inDegree)"

lemma graphOk_init:
  assumes "set K = workOrderNumber ` set wos"
  shows "graphOk K (initDegrees wos) (initChildren wos)"
proof -
  have "map_of (initDegrees wos) k = Some (int (edgesInto (initChildren wos) K k))" if "k \<in> set K" for k
    using that assms by (simp add: initDegrees_def initDegrees_fold edgesInto_def childrenOf_initChildren)
  moreover have "fst ` set (initDegrees wos) \<subseteq> set K"
  proof
    fix k assume "k \<in> fst ` set (initDegrees wos)"
    then have "k \<in> dom (map_of (initDegrees wos))" by (simp add: dom_map_of_conv_image_fst)
    then have "map_of (initDegrees wos) k \<noteq> None" by blast
    then show "k \<in> set K" using assms
      by (simp add: initDegrees_def initDegrees_fold split: if_splits)
  qed
  moreover have "distinct (map fst (initDegrees wos))"
    by (simp add: initDegrees_def initDegrees_distinct_fold)
  ultimately show ?thesis
    by (simp add: graphOk_def childrenOf_initChildren)
qed

lemma edgesInto_update:
  assumes "distinct K" and "dep \<in> set K"
  shows "edgesInto (AList.update dep (childrenOf children dep @ [x]) children) K k
    = edgesInto children K k + (if k = x then 1 else 0)"
proof -
  let ?ch' = "AList.update dep (childrenOf children dep @ [x]) children"
  have c: "childrenOf ?ch' m = (if m = dep then childrenOf children dep @ [x] else childrenOf children m)" for m
    by (simp add: childrenOf_def update_conv')
  have "edgesInto ?ch' K k = count_list (childrenOf ?ch' dep) k
      + sum_list (map (\<lambda>n. count_list (childrenOf ?ch' n) k) (filter (\<lambda>m. m \<noteq> dep) K))"
    unfolding edgesInto_def by (rule sum_list_split_distinct [OF assms])
  also have "map (\<lambda>n. count_list (childrenOf ?ch' n) k) (filter (\<lambda>m. m \<noteq> dep) K)
      = map (\<lambda>n. count_list (childrenOf children n) k) (filter (\<lambda>m. m \<noteq> dep) K)"
    by (rule map_cong) (simp_all add: c)
  also have "count_list (childrenOf ?ch' dep) k = count_list (childrenOf children dep) k + (if k = x then 1 else 0)"
    by (simp add: c)
  finally have "edgesInto ?ch' K k = (count_list (childrenOf children dep) k
      + sum_list (map (\<lambda>n. count_list (childrenOf children n) k) (filter (\<lambda>m. m \<noteq> dep) K)))
      + (if k = x then 1 else 0)" by simp
  also have "count_list (childrenOf children dep) k
      + sum_list (map (\<lambda>n. count_list (childrenOf children n) k) (filter (\<lambda>m. m \<noteq> dep) K))
      = edgesInto children K k"
    unfolding edgesInto_def by (rule sum_list_split_distinct [OF assms, symmetric])
  finally show ?thesis .
qed

lemma addEdge_graphOk:
  assumes K: "distinct K" and w: "workOrderNumber wo \<in> set K"
    and dom: "\<And>d. byNumber d \<noteq> None \<Longrightarrow> d \<in> set K"
    and g: "graphOk K (fst st) (snd st)"
  shows "graphOk K (fst (addEdge byNumber wo depId st)) (snd (addEdge byNumber wo depId st))"
proof (cases "byNumber depId = None")
  case True
  with g show ?thesis by (cases st) (simp add: addEdge_def)
next
  case False
  obtain inDegree children where st: "st = (inDegree, children)" by (cases st)
  from False dom have dK: "depId \<in> set K" by blast
  let ?x = "workOrderNumber wo"
  let ?i' = "AList.update ?x ((case map_of inDegree ?x of None \<Rightarrow> 0 | Some d \<Rightarrow> d) + 1) inDegree"
  let ?c' = "AList.update depId (childrenOf children depId @ [?x]) children"
  have r: "addEdge byNumber wo depId st = (?i', ?c')"
    using False st by (auto simp: addEdge_def childrenOf_def)
  from g st have g1: "\<And>k. k \<in> set K \<Longrightarrow> map_of inDegree k = Some (int (edgesInto children K k))"
    and g2: "\<And>n. set (childrenOf children n) \<subseteq> set K"
    and g3: "fst ` set inDegree \<subseteq> set K" and g4: "distinct (map fst inDegree)"
    unfolding graphOk_def by auto
  have "map_of ?i' k = Some (int (edgesInto ?c' K k))" if "k \<in> set K" for k
    using g1 [OF that] g1 [OF w] edgesInto_update [OF K dK, of children ?x k]
    by (simp add: update_conv')
  moreover have "set (childrenOf ?c' n) \<subseteq> set K" for n
    using g2 [of n] g2 [of depId] w by (auto simp: childrenOf_def update_conv' split: if_splits)
  moreover have "fst ` set ?i' \<subseteq> set K"
  proof -
    have "fst ` set ?i' = dom (map_of ?i')" by (simp add: dom_map_of_conv_image_fst)
    also have "\<dots> = insert ?x (dom (map_of inDegree))" by (simp add: update_conv')
    also have "dom (map_of inDegree) = fst ` set inDegree" by (simp add: dom_map_of_conv_image_fst)
    finally show ?thesis using g3 w by simp
  qed
  moreover have "distinct (map fst ?i')" using g4 by (simp add: distinct_update)
  ultimately show ?thesis
    unfolding graphOk_def r by simp
qed

lemma addEdges_graphOk:
  assumes K: "distinct K" and ids: "set K = workOrderNumber ` set wos"
    and g: "graphOk K (fst st) (snd st)"
  shows "graphOk K (fst (addEdges wos st)) (snd (addEdges wos st))"
proof -
  have dom: "d \<in> set K" if "indexByNumber wos d \<noteq> None" for d
    using that ids by (simp add: indexByNumber_None_iff)
  have inner: "graphOk K (fst (fold (addEdge (indexByNumber wos) wo) ds s))
                         (snd (fold (addEdge (indexByNumber wos) wo) ds s))"
    if "workOrderNumber wo \<in> set K" and "graphOk K (fst s) (snd s)" for wo ds s
    using that(2)
  proof (induction ds arbitrary: s)
    case Nil
    then show ?case by simp
  next
    case (Cons d ds)
    from Cons.IH [OF addEdge_graphOk [OF K that(1) dom Cons.prems]] show ?case by simp
  qed
  have outer: "graphOk K (fst (fold (\<lambda>wo st'. fold (addEdge (indexByNumber wos) wo) (dependsOnWorkOrderIds wo) st') ws s))
                         (snd (fold (\<lambda>wo st'. fold (addEdge (indexByNumber wos) wo) (dependsOnWorkOrderIds wo) st') ws s))"
    if "set ws \<subseteq> set wos" and "graphOk K (fst s) (snd s)" for ws s
    using that
  proof (induction ws arbitrary: s)
    case Nil
    then show ?case by simp
  next
    case (Cons w ws)
    from Cons.prems(1) ids have "workOrderNumber w \<in> set K" by auto
    from inner [OF this Cons.prems(2)] Cons.IH Cons.prems(1) show ?case by simp
  qed
  from outer [OF subset_refl g] show ?thesis by (simp add: addEdges_def)
qed

lemma kahnInv_initial:
  assumes "graphOk K inDegree children"
  shows "kahnInv K children inDegree (map fst (filter (\<lambda>(i, d). d = 0) inDegree)) []"
proof -
  from assms have g1: "\<And>k. k \<in> set K \<Longrightarrow> map_of inDegree k = Some (int (edgesInto children K k))"
    and g3: "fst ` set inDegree \<subseteq> set K" and g4: "distinct (map fst inDegree)"
    unfolding graphOk_def by auto
  let ?q = "map fst (filter (\<lambda>(i, d). d = 0) inDegree)"
  have "distinct ?q" using g4 by (rule distinct_map_filter)
  moreover have "set ?q \<subseteq> set K" using g3 by auto
  moreover have "map_of inDegree k = Some 0 \<longleftrightarrow> k \<in> set ?q" for k
  proof
    assume "map_of inDegree k = Some 0"
    then have "(k, 0) \<in> set inDegree" by (rule map_of_SomeD)
    then show "k \<in> set ?q" by force
  next
    assume "k \<in> set ?q"
    then have "(k, 0) \<in> set inDegree" by auto
    with g4 show "map_of inDegree k = Some 0" by simp
  qed
  ultimately have "distinct ([] @ ?q)" and "set ([] @ ?q) \<subseteq> set K"
    and "\<forall>k \<in> set K. map_of inDegree k = Some 0 \<longleftrightarrow> k \<in> set ([] @ ?q)"
    by simp_all
  moreover from g1 have "\<forall>k \<in> set K. map_of inDegree k
      = Some (int (edgesInto children (filter (\<lambda>n. n \<notin> set []) K) k))"
    by simp
  ultimately show ?thesis unfolding kahnInv_def by blast
qed

lemma kahnRun_final:
  assumes "kahnRun wos = (finalDegree, res)"
  shows "distinct res" and "set res \<subseteq> workOrderNumber ` set wos"
    and "\<And>k. k \<in> workOrderNumber ` set wos \<Longrightarrow> map_of finalDegree k = Some 0 \<longleftrightarrow> k \<in> set res"
    and "\<And>k. k \<in> workOrderNumber ` set wos \<Longrightarrow> \<exists>v\<ge>0. map_of finalDegree k = Some v"
proof -
  define K where "K = remdups (map workOrderNumber wos)"
  have K: "distinct K" and ids: "set K = workOrderNumber ` set wos" by (simp_all add: K_def)
  obtain inDegree children where a: "addEdges wos (initDegrees wos, initChildren wos) = (inDegree, children)"
    by (cases "addEdges wos (initDegrees wos, initChildren wos)")
  from addEdges_graphOk [OF K ids, of "(initDegrees wos, initChildren wos)"] graphOk_init [OF ids] a
  have g: "graphOk K inDegree children" by simp
  then have sub: "\<And>m. set (childrenOf children m) \<subseteq> set K" by (simp add: graphOk_def)
  from assms a have l: "kahnLoop children inDegree (map fst (filter (\<lambda>(i, d). d = 0) inDegree)) [] = (finalDegree, res)"
    by (simp add: kahnRun_def)
  from kahnLoop_final [OF K sub kahnInv_initial [OF g] l]
  have inv: "kahnInv K children finalDegree [] res" .
  from inv show "distinct res" by (simp add: kahnInv_def)
  from inv ids show "set res \<subseteq> workOrderNumber ` set wos" by (simp add: kahnInv_def)
  show "map_of finalDegree k = Some 0 \<longleftrightarrow> k \<in> set res" if "k \<in> workOrderNumber ` set wos" for k
  proof -
    from that ids have "k \<in> set K" by simp
    moreover from inv have "\<forall>k \<in> set K. map_of finalDegree k = Some 0 \<longleftrightarrow> k \<in> set (res @ [])"
      unfolding kahnInv_def by blast
    ultimately show ?thesis by simp
  qed
  show "\<exists>v\<ge>0. map_of finalDegree k = Some v" if "k \<in> workOrderNumber ` set wos" for k
  proof -
    from that ids have "k \<in> set K" by simp
    moreover from inv have "\<forall>k \<in> set K. map_of finalDegree k
        = Some (int (edgesInto children (filter (\<lambda>n. n \<notin> set res) K) k))"
      unfolding kahnInv_def by blast
    ultimately show ?thesis by simp
  qed
qed


section \<open>Cycle detection\<close>

lemma cycle_error_names:
  assumes "length (snd (kahnRun wos)) < length wos"
  shows "reflow wos wcs = Some (Inl (CircularDependency
            (filter (\<lambda>i. i \<notin> set (snd (kahnRun wos))) (map workOrderNumber wos))))
    \<and> (\<forall>i. i \<in> set (filter (\<lambda>i. i \<notin> set (snd (kahnRun wos))) (map workOrderNumber wos))
          \<longleftrightarrow> i \<in> workOrderNumber ` set wos \<and> (\<exists>v>0. map_of (fst (kahnRun wos)) i = Some v))"
proof -
  obtain finalDegree res where k: "kahnRun wos = (finalDegree, res)" by (cases "kahnRun wos")
  from assms k have "topologicalOrder wos
      = Inl (CircularDependency (filter (\<lambda>i. i \<notin> set res) (map workOrderNumber wos)))"
    by (simp add: topologicalOrder_def Let_def)
  then have r: "reflow wos wcs
      = Some (Inl (CircularDependency (filter (\<lambda>i. i \<notin> set res) (map workOrderNumber wos))))"
    by (simp add: reflow_def)
  have "i \<in> set (filter (\<lambda>i. i \<notin> set res) (map workOrderNumber wos))
      \<longleftrightarrow> i \<in> workOrderNumber ` set wos \<and> (\<exists>v>0. map_of finalDegree i = Some v)" for i
  proof (cases "i \<in> workOrderNumber ` set wos")
    case True
    from kahnRun_final(3) [OF k True] kahnRun_final(4) [OF k True] True
    show ?thesis by auto
  next
    case False
    then show ?thesis by auto
  qed
  with r k show ?thesis by simp
qed

lemma two_cycle:
  assumes "workOrderNumber a \<noteq> workOrderNumber b"
    and "dependsOnWorkOrderIds a = [workOrderNumber b]" and "dependsOnWorkOrderIds b = [workOrderNumber a]"
  shows "reflow [a, b] wcs = Some (Inl (CircularDependency [workOrderNumber a, workOrderNumber b]))"
proof -
  have "kahnRun [a, b] = ([(workOrderNumber a, 1), (workOrderNumber b, 1)], [])"
    using assms
    by (simp add: kahnRun_def addEdges_def addEdge_def initDegrees_def initChildren_def indexByNumber_def)
  then show ?thesis
    by (simp add: reflow_def topologicalOrder_def)
qed

text \<open>
  Claim C6. Whenever the queue loop ends with fewer ids in \<^verbatim>\<open>result\<close> than there are input
  orders, reflow fails with the circular-dependency error, which lists the input ids that are
  not in \<^verbatim>\<open>result\<close>; an id is listed exactly when it is an input id whose in-degree is still
  positive when the loop ends (it never reached zero: in-degrees only decrease, and an id is
  queued at zero). The failure carries no result. For every pair of orders with different ids where
  each depends on the other only, reflow fails with that error naming both ids.
\<close>

theorem cycle_detection:
  "(length (snd (kahnRun wos)) < length wos \<longrightarrow>
      reflow wos wcs = Some (Inl (CircularDependency
            (filter (\<lambda>i. i \<notin> set (snd (kahnRun wos))) (map workOrderNumber wos))))
      \<and> (\<forall>i. i \<in> set (filter (\<lambda>i. i \<notin> set (snd (kahnRun wos))) (map workOrderNumber wos))
            \<longleftrightarrow> i \<in> workOrderNumber ` set wos \<and> (\<exists>v>0. map_of (fst (kahnRun wos)) i = Some v)))
   \<and> (workOrderNumber a \<noteq> workOrderNumber b
        \<and> dependsOnWorkOrderIds a = [workOrderNumber b] \<and> dependsOnWorkOrderIds b = [workOrderNumber a]
      \<longrightarrow> reflow [a, b] wcs = Some (Inl (CircularDependency [workOrderNumber a, workOrderNumber b])))"
  using cycle_error_names [of wos wcs] two_cycle [of a b wcs] by blast

definition cycleA :: workOrder where
  "cycleA = \<lparr>workOrderNumber = ''A'', workCenterId = ''Line1'', startDate = 374400000,
     endDate = 378000000, durationMinutes = 60, isMaintenance = False, dependsOnWorkOrderIds = [''B'']\<rparr>"

definition cycleB :: workOrder where
  "cycleB = \<lparr>workOrderNumber = ''B'', workCenterId = ''Line1'', startDate = 378000000,
     endDate = 381600000, durationMinutes = 60, isMaintenance = False, dependsOnWorkOrderIds = [''A'']\<rparr>"

lemma kahnRun_cycle: "kahnRun [cycleA, cycleB] = ([(''A'', 1), (''B'', 1)], [])"
  by code_simp

theorem cycle_detection_witness:
  "length (snd (kahnRun [cycleA, cycleB])) < length [cycleA, cycleB]
   \<and> workOrderNumber cycleA \<noteq> workOrderNumber cycleB
   \<and> dependsOnWorkOrderIds cycleA = [workOrderNumber cycleB]
   \<and> dependsOnWorkOrderIds cycleB = [workOrderNumber cycleA]
   \<and> reflow [cycleA, cycleB] [] = Some (Inl (CircularDependency [''A'', ''B'']))
   \<and> map_of (fst (kahnRun [cycleA, cycleB])) ''A'' = Some 1
   \<and> map_of (fst (kahnRun [cycleA, cycleB])) ''B'' = Some 1"
proof -
  have l: "length (snd (kahnRun [cycleA, cycleB])) < length [cycleA, cycleB]"
    by (simp add: kahnRun_cycle)
  have n: "workOrderNumber cycleA = ''A''" "workOrderNumber cycleB = ''B''"
    "dependsOnWorkOrderIds cycleA = [''B'']" "dependsOnWorkOrderIds cycleB = [''A'']"
    by (simp_all add: cycleA_def cycleB_def)
  from cycle_detection [of "[cycleA, cycleB]" "[]" cycleA cycleB] l show ?thesis
    by (simp add: kahnRun_cycle n)
qed

section \<open>Unknown dependency ids\<close>

lemma parentStep_fold_flags:
  "d \<in> set ds \<Longrightarrow> byNumber d = None
    \<Longrightarrow> UnknownDependency (workOrderNumber wo) d \<in> set (snd (fold (parentStep byNumber wo) ds st))"
proof (induction ds arbitrary: st)
  case Nil
  then show ?case by simp
next
  case (Cons x ds)
  show ?case
  proof (cases "d = x")
    case True
    with Cons.prems(2) have "UnknownDependency (workOrderNumber wo) d \<in> set (snd (parentStep byNumber wo x st))"
      by (cases st) (simp add: parentStep_def)
    with parentStep_fold_mono [of "parentStep byNumber wo x st" byNumber wo ds]
    show ?thesis by auto
  next
    case False
    with Cons show ?thesis by simp
  qed
qed

lemma dependencyStep_flags:
  assumes "d \<in> set (dependsOnWorkOrderIds wo)" and "byNumber d = None"
  shows "UnknownDependency (workOrderNumber wo) d \<in> set (dependencyStep byNumber wo es)"
proof (cases "scanParents byNumber wo es")
  case (Pair m es')
  with parentStep_fold_flags [where byNumber = byNumber and d = d and wo = wo and st = "(None, es)", OF assms]
  have "UnknownDependency (workOrderNumber wo) d \<in> set es'" by (simp add: scanParents_def)
  with Pair assms(1) show ?thesis
    by (auto simp: dependencyStep_def split: option.splits)
qed

lemma checkDependencies_flags:
  assumes "wo \<in> set wos" and "d \<in> set (dependsOnWorkOrderIds wo)" and "indexByNumber wos d = None"
  shows "UnknownDependency (workOrderNumber wo) d \<in> set (checkDependencies wos errs)"
proof -
  have "wo \<in> set ws
    \<Longrightarrow> UnknownDependency (workOrderNumber wo) d \<in> set (fold (dependencyStep (indexByNumber wos)) ws es)" for ws es
  proof (induction ws arbitrary: es)
    case Nil
    then show ?case by simp
  next
    case (Cons w ws)
    show ?case
    proof (cases "wo = w")
      case True
      from dependencyStep_flags [where byNumber = "indexByNumber wos" and d = d and es = es, OF assms(2,3)]
        dependencyStep_fold_mono [of "dependencyStep (indexByNumber wos) wo es" "indexByNumber wos" ws]
      show ?thesis using True by auto
    next
      case False
      with Cons show ?thesis by simp
    qed
  qed
  with assms(1) show ?thesis by (simp add: checkDependencies_def)
qed

lemma validateSchedule_unknown_dependency:
  assumes "validateSchedule wos wcs = Some v" and "wo \<in> set wos"
    and "d \<in> set (dependsOnWorkOrderIds wo)" and "d \<notin> workOrderNumber ` set wos"
  shows "UnknownDependency (workOrderNumber wo) d \<in> set (errors v)" and "\<not> valid v"
proof -
  from assms(1) obtain errs where c: "checkShifts wos wcs (checkDependencies wos (checkWorkCenterConflicts wos [])) = Some errs"
    and v: "errors v = errs" "valid v = (errs = [])"
    by (auto simp: validateSchedule_def checkMaintenance_def Let_def split: option.splits)
  from assms(4) have "indexByNumber wos d = None" by (simp add: indexByNumber_None_iff)
  from checkDependencies_flags [OF assms(2,3) this] checkShifts_mono [OF c]
  have "UnknownDependency (workOrderNumber wo) d \<in> set errs" by blast
  with v show "UnknownDependency (workOrderNumber wo) d \<in> set (errors v)" and "\<not> valid v" by auto
qed

lemma updateOrder_keeps:
  "workOrderNumber (updateOrder sched wo) = workOrderNumber wo"
  "dependsOnWorkOrderIds (updateOrder sched wo) = dependsOnWorkOrderIds wo"
  "workCenterId (updateOrder sched wo) = workCenterId wo"
  "durationMinutes (updateOrder sched wo) = durationMinutes wo"
  "isMaintenance (updateOrder sched wo) = isMaintenance wo"
  by (auto simp: updateOrder_def split: option.splits)

lemma selectNonMaintenance_ok:
  "\<forall>i \<in> set ids. byNumber i \<noteq> None
    \<Longrightarrow> \<exists>l. selectNonMaintenance byNumber ids = Inr l \<and> set l \<subseteq> set ids"
proof (induction ids)
  case Nil
  then show ?case by simp
next
  case (Cons i ids)
  then obtain l where "selectNonMaintenance byNumber ids = Inr l" and "set l \<subseteq> set ids" by auto
  moreover from Cons.prems obtain wo where "byNumber i = Some wo" by auto
  ultimately show ?case by auto
qed

lemma placeOrder_ok: "byNumber i \<noteq> None \<Longrightarrow> \<exists>st'. placeOrder byNumber byName st i = Inr st'"
  by (auto simp: placeOrder_def Let_def)

lemma placeAll_ok:
  "\<forall>i \<in> set ids. byNumber i \<noteq> None \<Longrightarrow> \<exists>st'. placeAll byNumber byName st ids = Inr st'"
proof (induction ids arbitrary: st)
  case Nil
  then show ?case by simp
next
  case (Cons i ids)
  from Cons.prems placeOrder_ok [of byNumber i byName st]
  obtain st1 where "placeOrder byNumber byName st i = Inr st1" by auto
  with Cons.IH [of st1] Cons.prems show ?case by simp
qed

lemma topologicalOrder_ids:
  assumes "topologicalOrder wos = Inr ids"
  shows "set ids \<subseteq> workOrderNumber ` set wos" and "distinct ids" and "length ids = length wos"
proof -
  obtain finalDegree res where k: "kahnRun wos = (finalDegree, res)" by (cases "kahnRun wos")
  with assms have "ids = res" and "length res = length wos"
    by (auto simp: topologicalOrder_def Let_def split: if_splits)
  with kahnRun_final(1,2) [OF k]
  show "set ids \<subseteq> workOrderNumber ` set wos" and "distinct ids" and "length ids = length wos"
    by simp_all
qed

lemma reflow_after_sort:
  assumes "topologicalOrder wos = Inr ids"
  shows "\<exists>l st. selectNonMaintenance (indexByNumber wos) ids = Inr l
    \<and> placeAll (indexByNumber wos) (indexByName wcs) initialState l = Inr st
    \<and> reflow wos wcs =
        (case validateSchedule (map (updateOrder (newSchedule st)) wos) wcs of
           None \<Rightarrow> None
         | Some v \<Rightarrow>
             if \<not> valid v then Some (Inl (InvalidSchedule (errors v)))
             else Some (Inr \<lparr>updatedWorkOrders = map (updateOrder (newSchedule st)) wos,
                             changes = changesSoFar st,
                             explanationOf = (if explanationParts st \<noteq> []
                                              then Explained (explanationParts st)
                                              else NoChangesRequired)\<rparr>))"
proof -
  from topologicalOrder_ids(1) [OF assms]
  have known: "\<forall>i \<in> set ids. indexByNumber wos i \<noteq> None"
    by (auto simp: indexByNumber_None_iff)
  from selectNonMaintenance_ok [OF known]
  obtain l where l: "selectNonMaintenance (indexByNumber wos) ids = Inr l" and "set l \<subseteq> set ids"
    by blast
  with known have "\<forall>i \<in> set l. indexByNumber wos i \<noteq> None" by blast
  from placeAll_ok [OF this, of "indexByName wcs" initialState]
  obtain st where st: "placeAll (indexByNumber wos) (indexByName wcs) initialState l = Inr st"
    by blast
  from assms l st show ?thesis
    by (simp add: reflow_def Let_def)
qed

text \<open>
  Claim C9, amended. When some order lists a dependency id that no input order has, reflow
  never returns a result. If the topological sort fails, the call fails with that error (the
  circular-dependency error). Otherwise the placement runs (the graph builder dropped the edge)
  and the validator is called on the updated orders: either it does not return, or the call
  fails with the invalid-schedule error, whose list contains the unknown-dependency error of
  that order and id.
\<close>

theorem unknown_dependency_rejected:
  assumes "wo \<in> set wos" and "d \<in> set (dependsOnWorkOrderIds wo)"
    and "d \<notin> workOrderNumber ` set wos"
  shows "(\<forall>r. reflow wos wcs \<noteq> Some (Inr r))
    \<and> (case topologicalOrder wos of
          Inl e \<Rightarrow> reflow wos wcs = Some (Inl e)
        | Inr ids \<Rightarrow>
            reflow wos wcs = None
            \<or> (\<exists>errs. reflow wos wcs = Some (Inl (InvalidSchedule errs))
                  \<and> UnknownDependency (workOrderNumber wo) d \<in> set errs))"
proof (cases "topologicalOrder wos")
  case (Inl e)
  then show ?thesis by (simp add: reflow_def)
next
  case (Inr ids)
  from reflow_after_sort [OF Inr, of wcs] obtain st :: placerState where
    r: "reflow wos wcs =
        (case validateSchedule (map (updateOrder (newSchedule st)) wos) wcs of
           None \<Rightarrow> None
         | Some v \<Rightarrow>
             if \<not> valid v then Some (Inl (InvalidSchedule (errors v)))
             else Some (Inr \<lparr>updatedWorkOrders = map (updateOrder (newSchedule st)) wos,
                             changes = changesSoFar st,
                             explanationOf = (if explanationParts st \<noteq> []
                                              then Explained (explanationParts st)
                                              else NoChangesRequired)\<rparr>))"
    by blast
  let ?u = "map (updateOrder (newSchedule st)) wos"
  show ?thesis
  proof (cases "validateSchedule ?u wcs")
    case None
    with r Inr show ?thesis by simp
  next
    case (Some v)
    from assms(1) have m: "updateOrder (newSchedule st) wo \<in> set ?u" by simp
    from assms(3) have n: "d \<notin> workOrderNumber ` set ?u"
      by (auto simp: updateOrder_keeps)
    from validateSchedule_unknown_dependency [OF Some m _ n] assms(2)
    have "UnknownDependency (workOrderNumber wo) d \<in> set (errors v)" and "\<not> valid v"
      by (simp_all add: updateOrder_keeps)
    with r Some Inr show ?thesis by simp
  qed
qed


definition danglingOrder :: workOrder where
  "danglingOrder = \<lparr>workOrderNumber = ''WO-9'', workCenterId = ''Line2'', startDate = 374400000,
     endDate = 378000000, durationMinutes = 60, isMaintenance = False,
     dependsOnWorkOrderIds = [''WO-404'']\<rparr>"

lemma reflow_dangling:
  "reflow [danglingOrder] [shiftCenter] = Some (Inl (InvalidSchedule [UnknownDependency ''WO-9'' ''WO-404'']))"
  by code_simp

theorem unknown_dependency_rejected_witness:
  "danglingOrder \<in> set [danglingOrder]
   \<and> ''WO-404'' \<in> set (dependsOnWorkOrderIds danglingOrder)
   \<and> ''WO-404'' \<notin> workOrderNumber ` set [danglingOrder]
   \<and> (\<forall>r. reflow [danglingOrder] [shiftCenter] \<noteq> Some (Inr r))
   \<and> reflow [danglingOrder] [shiftCenter]
       = Some (Inl (InvalidSchedule [UnknownDependency ''WO-9'' ''WO-404'']))"
proof -
  have a: "''WO-404'' \<in> set (dependsOnWorkOrderIds danglingOrder)"
    and b: "''WO-404'' \<notin> workOrderNumber ` set [danglingOrder]"
    by (simp_all add: danglingOrder_def)
  from unknown_dependency_rejected [OF _ a b, of "[shiftCenter]"] a b reflow_dangling
  show ?thesis by simp
qed

text \<open>
  The claim as stated (the call always fails with the invalid-schedule error) is false: with a
  cycle between A and B and a dangling dependency of A, the call fails in the topological
  sort, before any validation.
\<close>

definition loopA :: workOrder where
  "loopA = \<lparr>workOrderNumber = ''A'', workCenterId = ''Line2'', startDate = 374400000,
     endDate = 378000000, durationMinutes = 60, isMaintenance = False,
     dependsOnWorkOrderIds = [''B'', ''WO-404'']\<rparr>"

definition loopB :: workOrder where
  "loopB = \<lparr>workOrderNumber = ''B'', workCenterId = ''Line2'', startDate = 378000000,
     endDate = 381600000, durationMinutes = 60, isMaintenance = False,
     dependsOnWorkOrderIds = [''A'']\<rparr>"

theorem unknown_dependency_counterexample:
  "loopA \<in> set [loopA, loopB]
   \<and> ''WO-404'' \<in> set (dependsOnWorkOrderIds loopA)
   \<and> ''WO-404'' \<notin> workOrderNumber ` set [loopA, loopB]
   \<and> reflow [loopA, loopB] [shiftCenter] = Some (Inl (CircularDependency [''A'', ''B'']))
   \<and> (\<forall>errs. reflow [loopA, loopB] [shiftCenter] \<noteq> Some (Inl (InvalidSchedule errs)))"
proof -
  have "reflow [loopA, loopB] [shiftCenter] = Some (Inl (CircularDependency [''A'', ''B'']))"
    by code_simp
  then show ?thesis by (simp add: loopA_def loopB_def)
qed

section \<open>Iteration bounds\<close>

text \<open>
  A shift calendar is stuck at \<open>t\<close> when \<open>t\<close> lies outside every shift and \<^verbatim>\<open>getNextShiftStart\<close>
  returns \<open>t\<close> itself: a shift whose \<open>startHour\<close> is not below its \<open>endHour\<close> starts at an instant
  that it does not contain.
\<close>

lemma getShiftSegmentEnd_outside:
  "\<not> isWithinShift t shs \<Longrightarrow> getShiftSegmentEnd t shs = t"
  by (induction shs) (auto simp: isWithinShift_def isInShift_def Let_def split: if_splits)

lemma getWorkingSegmentEnd_outside:
  assumes "\<not> isWithinShift t shs"
  shows "getWorkingSegmentEnd t shs ranges = t"
proof -
  have "fold (\<lambda>r segmentEnd. if rangeStart r > t \<and> rangeStart r < segmentEnd then rangeStart r else segmentEnd)
          ranges t = t"
    by (induction ranges) auto
  with assms show ?thesis
    by (simp add: getWorkingSegmentEnd_def getShiftSegmentEnd_outside)
qed

lemma stuck_nextWorkingMomentLoop:
  assumes "shs \<noteq> []" and "\<not> isWithinShift t shs" and "getNextShiftStart t shs = t"
  shows "nextWorkingMomentLoop n shs ranges t = t"
  using assms by (induction n) auto

lemma stuck_walkLoop:
  assumes "shs \<noteq> []" and "\<not> isWithinShift t shs" and "getNextShiftStart t shs = t"
  shows "walkLoop n shs ranges t remaining = t"
proof (induction n)
  case 0
  then show ?case by simp
next
  case (Suc n)
  from assms have "getNextWorkingMoment t shs ranges = t"
    by (simp add: getNextWorkingMoment_def stuck_nextWorkingMomentLoop)
  with Suc assms(2) show ?case
    by (simp add: getWorkingSegmentEnd_outside diffMinutesFloor_def Let_def)
qed

lemma stuck_segmentsLoop:
  assumes "shs \<noteq> []" and "\<not> isWithinShift t shs" and "getNextShiftStart t shs = t"
  shows "segmentsLoop n shs ranges t remaining segments = segments"
proof (induction n)
  case 0
  then show ?case by simp
next
  case (Suc n)
  from assms have "getNextWorkingMoment t shs ranges = t"
    by (simp add: getNextWorkingMoment_def stuck_nextWorkingMomentLoop)
  with Suc assms(2) show ?case
    by (simp add: getWorkingSegmentEnd_outside diffMinutesFloor_def Let_def)
qed

lemma bounds_stuck:
  assumes "shs \<noteq> []" and "\<not> isWithinShift t shs" and "getNextShiftStart t shs = t"
  shows "calculateEndDateWithShiftsAndMaintenance t duration shs ranges = t"
  using assms
  by (simp add: calculateEndDateWithShiftsAndMaintenance_def stuck_nextWorkingMomentLoop stuck_walkLoop
      getNextWorkingMoment_def)

text \<open>
  On a shift calendar stuck at \<open>t\<close>, \<^verbatim>\<open>getNextWorkingMoment\<close> uses its 1000 iterations and
  returns \<open>t\<close>, which is not a working moment; the time-walk of any duration from \<open>t\<close> uses its
  5000 iterations and returns \<open>t\<close>; and \<^verbatim>\<open>getWorkingSegments\<close> returns no segment.
\<close>

lemma bounds_return_silently:
  assumes "shs \<noteq> []" and "\<not> isWithinShift t shs" and "getNextShiftStart t shs = t"
  shows "getNextWorkingMoment t shs ranges = t
    \<and> calculateEndDateWithShiftsAndMaintenance t duration shs ranges = t
    \<and> getWorkingSegments t duration shs ranges = []"
  using assms
  by (simp add: getNextWorkingMoment_def calculateEndDateWithShiftsAndMaintenance_def
      getWorkingSegments_def stuck_nextWorkingMomentLoop stuck_walkLoop stuck_segmentsLoop)

definition emptyShift :: shift where
  "emptyShift = \<lparr>dayOfWeek = 1, startHour = 9, endHour = 9\<rparr>"

lemma emptyShift_stuck:
  "\<not> isWithinShift 378000000 [emptyShift]" "getNextShiftStart 378000000 [emptyShift] = 378000000"
  by code_simp+

lemma emptyShift_bounds:
  "[emptyShift] \<noteq> [] \<and> \<not> isWithinShift 378000000 [emptyShift]
   \<and> getNextShiftStart 378000000 [emptyShift] = 378000000
   \<and> getNextWorkingMoment 378000000 [emptyShift] [] = 378000000
   \<and> calculateEndDateWithShiftsAndMaintenance 378000000 60 [emptyShift] [] = 378000000
   \<and> getWorkingSegments 378000000 60 [emptyShift] [] = []"
  using bounds_return_silently [OF _ emptyShift_stuck, of "[]" 60] emptyShift_stuck by simp


text \<open>
  The validator's \<^verbatim>\<open>calculateEndDateWithShifts\<close> has no bound: on a stuck calendar its loop
  never returns.
\<close>

lemma stuck_shiftWalkLoop:
  assumes "\<not> isWithinShift t shs" and "getNextShiftStart t shs = t" and "remaining > 0"
  shows "shiftWalkLoop shs t remaining = None"
proof -
  have "shiftWalkLoop s c r = Some y \<Longrightarrow> (s = shs \<and> c = t \<longrightarrow> r \<le> 0)" for s c r y
  proof (rule shiftWalkLoop.raw_induct [where P = "\<lambda>s c r y. s = shs \<and> c = t \<longrightarrow> r \<le> 0"])
    fix loop :: "shift list \<Rightarrow> int \<Rightarrow> int \<Rightarrow> int option" and s' c' r' y'
    assume IH: "\<And>s c r y. loop s c r = Some y \<Longrightarrow> s = shs \<and> c = t \<longrightarrow> r \<le> 0"
      and step: "(if 0 < r'
        then if diffMinutesFloor (getShiftSegmentEnd c' s') c' \<le> 0
             then loop s' (getNextShiftStart c' s') r'
             else if r' \<le> diffMinutesFloor (getShiftSegmentEnd c' s') c'
                  then Some (plusMinutes c' r')
                  else loop s' (getShiftSegmentEnd c' s')
                         (r' - diffMinutesFloor (getShiftSegmentEnd c' s') c')
        else Some c') = Some y'"
    show "s' = shs \<and> c' = t \<longrightarrow> r' \<le> 0"
    proof (rule impI, rule ccontr)
      assume a: "s' = shs \<and> c' = t" and "\<not> r' \<le> 0"
      then have pos: "0 < r'" by simp
      from a assms(1) have "getShiftSegmentEnd c' s' = c'" by (simp add: getShiftSegmentEnd_outside)
      with step pos a assms(2) have "loop shs t r' = Some y'"
        by (simp add: diffMinutesFloor_def)
      from IH [OF this] pos show False by simp
    qed
  qed
  with assms(3) show ?thesis by (cases "shiftWalkLoop shs t remaining") force+
qed

lemma availableLoop_free:
  "\<not> isInMaintenance current windows \<Longrightarrow> availableLoop n shs windows current = current"
  by (cases n) simp_all

text \<open>Reflow of a single movable order without dependencies.\<close>

lemma topologicalOrder_single:
  "dependsOnWorkOrderIds wo = [] \<Longrightarrow> topologicalOrder [wo] = Inr [workOrderNumber wo]"
  by (simp add: topologicalOrder_def kahnRun_def addEdges_def initDegrees_def initChildren_def
      childrenOf_def)

definition shiftsOf :: "workCenter list \<Rightarrow> workOrder \<Rightarrow> shift list" where
  "shiftsOf wcs wo = (case indexByName wcs (workCenterId wo) of None \<Rightarrow> [] | Some c \<Rightarrow> shifts c)"

definition windowsOf :: "workCenter list \<Rightarrow> workOrder \<Rightarrow> maintenanceWindow list" where
  "windowsOf wcs wo = (case indexByName wcs (workCenterId wo) of None \<Rightarrow> [] | Some c \<Rightarrow> maintenanceWindows c)"

lemma placeOrder_first:
  assumes "dependsOnWorkOrderIds wo = []"
    and "s = getNextAvailableStart (startDate wo) (shiftsOf wcs wo) (windowsOf wcs wo)"
    and "e = calculateEndDateWithShiftsAndMaintenance s (durationMinutes wo) (shiftsOf wcs wo)
               (map toRange (windowsOf wcs wo))"
  shows "placeOrder (indexByNumber [wo]) (indexByName wcs) initialState (workOrderNumber wo)
    = Inr \<lparr>scheduledByCenter = Map.empty(workCenterId wo \<mapsto> [(s, e)]),
            newSchedule = Map.empty(workOrderNumber wo \<mapsto> (s, e)),
            changesSoFar = fst (startChange wo s None None) @ fst (endChange wo e None None),
            explanationParts = snd (startChange wo s None None) @ snd (endChange wo e None None)\<rparr>"
proof -
  have b: "indexByNumber [wo] (workOrderNumber wo) = Some wo"
    by (simp add: indexByNumber_def)
  have i: "scheduledByCenter initialState = Map.empty" "newSchedule initialState = Map.empty"
    "changesSoFar initialState = []" "explanationParts initialState = []"
    by (simp_all add: initialState_def)
  have l: "lastEndOnCenter Map.empty (workCenterId wo) = None"
    by (simp add: lastEndOnCenter_def scheduledOn_def)
  have m: "maxParentEndOf (indexByNumber [wo]) Map.empty wo = None"
    by (simp add: maxParentEndOf_def assms(1))
  have c: "candidateStartOf (indexByNumber [wo]) (indexByName wcs) initialState wo = s"
    by (simp add: candidateStartOf_def i l m orElse_def shiftsOf_def windowsOf_def Let_def assms(2))
  have sh: "(case indexByName wcs (workCenterId wo) of None \<Rightarrow> [] | Some c \<Rightarrow> shifts c) = shiftsOf wcs wo"
    "(case indexByName wcs (workCenterId wo) of None \<Rightarrow> [] | Some c \<Rightarrow> maintenanceWindows c) = windowsOf wcs wo"
    by (simp_all add: shiftsOf_def windowsOf_def)
  have e: "calculateEndDateWithShiftsAndMaintenance s (durationMinutes wo) (shiftsOf wcs wo)
               (map toRange (windowsOf wcs wo)) = e"
    by (simp add: assms(3))
  show ?thesis
    by (simp add: placeOrder_def b i l m c sh e Let_def scheduledOn_def)
qed

lemma reflow_single:
  assumes "dependsOnWorkOrderIds wo = []" and "\<not> isMaintenance wo"
    and "s = getNextAvailableStart (startDate wo) (shiftsOf wcs wo) (windowsOf wcs wo)"
    and "e = calculateEndDateWithShiftsAndMaintenance s (durationMinutes wo) (shiftsOf wcs wo)
               (map toRange (windowsOf wcs wo))"
  shows "reflow [wo] wcs =
    (case validateSchedule [wo\<lparr>startDate := s, endDate := e\<rparr>] wcs of
       None \<Rightarrow> None
     | Some v \<Rightarrow>
         if \<not> valid v then Some (Inl (InvalidSchedule (errors v)))
         else Some (Inr \<lparr>updatedWorkOrders = [wo\<lparr>startDate := s, endDate := e\<rparr>],
                         changes = fst (startChange wo s None None) @ fst (endChange wo e None None),
                         explanationOf =
                           (if snd (startChange wo s None None) @ snd (endChange wo e None None) \<noteq> []
                            then Explained (snd (startChange wo s None None) @ snd (endChange wo e None None))
                            else NoChangesRequired)\<rparr>))"
proof -
  define st0 where "st0 = \<lparr>scheduledByCenter = Map.empty(workCenterId wo \<mapsto> [(s, e)]),
            newSchedule = Map.empty(workOrderNumber wo \<mapsto> (s, e)),
            changesSoFar = fst (startChange wo s None None) @ fst (endChange wo e None None),
            explanationParts = snd (startChange wo s None None) @ snd (endChange wo e None None)\<rparr>"
  have b: "indexByNumber [wo] (workOrderNumber wo) = Some wo"
    by (simp add: indexByNumber_def)
  have sel: "selectNonMaintenance (indexByNumber [wo]) [workOrderNumber wo] = Inr [workOrderNumber wo]"
    using assms(2) by (simp add: b)
  have pl: "placeAll (indexByNumber [wo]) (indexByName wcs) initialState [workOrderNumber wo] = Inr st0"
    unfolding st0_def using placeOrder_first [OF assms(1,3,4)] by simp
  have u: "map (updateOrder (newSchedule st0)) [wo] = [wo\<lparr>startDate := s, endDate := e\<rparr>]"
    using assms(2) by (simp add: st0_def updateOrder_def)
  have f: "changesSoFar st0 = fst (startChange wo s None None) @ fst (endChange wo e None None)"
    "explanationParts st0 = snd (startChange wo s None None) @ snd (endChange wo e None None)"
    by (simp_all add: st0_def)
  show ?thesis
    unfolding reflow_def topologicalOrder_single [OF assms(1)] sum.case sel pl Let_def u f
    by (rule refl)
qed


lemma validateSchedule_single:
  assumes "dependsOnWorkOrderIds w = []"
  shows "validateSchedule [w] wcs =
    (case shiftStep wcs w [] of
       None \<Rightarrow> None
     | Some errs \<Rightarrow> Some \<lparr>valid = (errs = []), errors = errs\<rparr>)"
proof -
  have "checkWorkCenterConflicts [w] [] = []"
    by (simp add: checkWorkCenterConflicts_def groupByCenter_def groupStep_def)
  moreover have "checkDependencies [w] [] = []"
    by (simp add: checkDependencies_def dependencyStep_def assms)
  ultimately show ?thesis
    by (simp add: validateSchedule_def checkMaintenance_def Let_def split: option.splits)
qed

definition stuckCenter :: workCenter where
  "stuckCenter = \<lparr>name = ''Line9'', shifts = [emptyShift], maintenanceWindows = []\<rparr>"

definition stuckOrder :: workOrder where
  "stuckOrder = \<lparr>workOrderNumber = ''WO-S'', workCenterId = ''Line9'', startDate = 378000000,
     endDate = 381600000, durationMinutes = 60, isMaintenance = False, dependsOnWorkOrderIds = []\<rparr>"

definition farWindow :: maintenanceWindow where
  "farWindow = \<lparr>winStartDate = 0, winEndDate = 60000, reason = None\<rparr>"

lemma reflow_stuck_hangs: "reflow [stuckOrder] [stuckCenter] = None"
proof -
  have sh: "shiftsOf [stuckCenter] stuckOrder = [emptyShift]" "windowsOf [stuckCenter] stuckOrder = []"
    by (simp_all add: shiftsOf_def windowsOf_def indexByName_def stuckCenter_def stuckOrder_def)
  have s: "getNextAvailableStart (startDate stuckOrder) [emptyShift] [] = 378000000"
    using emptyShift_stuck
    by (simp add: getNextAvailableStart_def snapToShift_def availableLoop_free isInMaintenance_def
        stuckOrder_def)
  have e: "calculateEndDateWithShiftsAndMaintenance 378000000 (durationMinutes stuckOrder) [emptyShift]
      (map toRange []) = 378000000"
    using bounds_stuck [OF _ emptyShift_stuck] by simp
  have v: "validateSchedule [stuckOrder\<lparr>startDate := 378000000, endDate := 378000000\<rparr>] [stuckCenter] = None"
    using emptyShift_stuck stuck_shiftWalkLoop [OF emptyShift_stuck, of 60]
    by (simp add: validateSchedule_single stuckOrder_def shiftStep_def stuckCenter_def
        calculateEndDateWithShifts_def)
  have d: "dependsOnWorkOrderIds stuckOrder = []" "\<not> isMaintenance stuckOrder"
    by (simp_all add: stuckOrder_def)
  from reflow_single [OF d, of 378000000 "[stuckCenter]" 378000000] sh s e v
  show ?thesis by simp
qed

lemma reflow_stuck_invalid:
  "reflow [stuckOrder] [stuckCenter\<lparr>maintenanceWindows := [farWindow]\<rparr>]
    = Some (Inl (InvalidSchedule [StartOutsideShift ''WO-S'' 378000000 ''Line9'']))"
proof -
  let ?c = "stuckCenter\<lparr>maintenanceWindows := [farWindow]\<rparr>"
  have sh: "shiftsOf [?c] stuckOrder = [emptyShift]" "windowsOf [?c] stuckOrder = [farWindow]"
    by (simp_all add: shiftsOf_def windowsOf_def indexByName_def stuckCenter_def stuckOrder_def)
  have s: "getNextAvailableStart (startDate stuckOrder) [emptyShift] [farWindow] = 378000000"
    using emptyShift_stuck
    by (simp add: getNextAvailableStart_def snapToShift_def availableLoop_free isInMaintenance_def
        stuckOrder_def inWindow_def farWindow_def)
  have e: "calculateEndDateWithShiftsAndMaintenance 378000000 (durationMinutes stuckOrder) [emptyShift]
      (map toRange [farWindow]) = 378000000"
    using bounds_stuck [OF _ emptyShift_stuck] by simp
  have e': "calculateEndDateWithShiftsAndMaintenance 378000000 60 [emptyShift] [toRange farWindow] = 378000000"
    using bounds_stuck [OF _ emptyShift_stuck] by simp
  have v: "validateSchedule [stuckOrder\<lparr>startDate := 378000000, endDate := 378000000\<rparr>] [?c]
      = Some \<lparr>valid = False, errors = [StartOutsideShift ''WO-S'' 378000000 ''Line9'']\<rparr>"
    using emptyShift_stuck
    by (simp add: validateSchedule_single stuckOrder_def shiftStep_def stuckCenter_def e')
  have d: "dependsOnWorkOrderIds stuckOrder = []" "\<not> isMaintenance stuckOrder"
    by (simp_all add: stuckOrder_def)
  from reflow_single [OF d, of 378000000 "[?c]" 378000000] sh s e v
  show ?thesis by simp
qed


text \<open>
  501 maintenance windows of one minute each, back to back from instant 0: the snap-forward
  loop of the placer leaves one window per iteration and stops after 500, inside the last.
\<close>

definition minuteWindow :: "nat \<Rightarrow> maintenanceWindow" where
  "minuteWindow i = \<lparr>winStartDate = int i * 60000, winEndDate = (int i + 1) * 60000, reason = None\<rparr>"

definition chainWindows :: "maintenanceWindow list" where
  "chainWindows = map minuteWindow [0..<501]"

lemma chain_find:
  assumes "k < N"
  shows "find (inWindow (int k * 60000)) (map minuteWindow [0..<N]) = Some (minuteWindow k)"
proof -
  have "inWindow (int k * 60000) (minuteWindow k)"
    by (simp add: inWindow_def minuteWindow_def)
  moreover have "\<not> inWindow (int k * 60000) (minuteWindow j)" if "j < k" for j
    using that by (simp add: inWindow_def minuteWindow_def)
  ultimately show ?thesis
    using assms by (auto simp: find_Some_iff intro!: exI [of _ k])
qed

lemma chain_in:
  assumes "k < N"
  shows "isInMaintenance (int k * 60000) (map minuteWindow [0..<N])"
proof -
  have "inWindow (int k * 60000) (minuteWindow k)"
    by (simp add: inWindow_def minuteWindow_def)
  with assms show ?thesis
    by (auto simp: isInMaintenance_def list_ex_iff)
qed

lemma chain_loop:
  "k + n \<le> N \<Longrightarrow> availableLoop n [] (map minuteWindow [0..<N]) (int k * 60000) = int (k + n) * 60000"
proof (induction n arbitrary: k)
  case 0
  then show ?case by simp
next
  case (Suc n)
  then have k: "k < N" by simp
  have e: "winEndDate (minuteWindow k) = int (Suc k) * 60000"
    by (simp add: minuteWindow_def)
  from Suc.prems have "Suc k + n \<le> N" by simp
  from Suc.IH [OF this] chain_find [OF k] chain_in [OF k] show ?case
    by (simp add: snapToShift_def e del: of_nat_Suc)
qed

lemma chain_start: "getNextAvailableStart 0 [] chainWindows = 30000000"
  using chain_loop [of 0 500 501]
  by (simp add: getNextAvailableStart_def snapToShift_def chainWindows_def)

lemma chain_still_blocked: "isInMaintenance 30000000 chainWindows"
  using chain_in [of 500 501] by (simp add: chainWindows_def)

definition chainCenter :: workCenter where
  "chainCenter = \<lparr>name = ''Line7'', shifts = [], maintenanceWindows = chainWindows\<rparr>"

definition chainOrder :: workOrder where
  "chainOrder = \<lparr>workOrderNumber = ''WO-C'', workCenterId = ''Line7'', startDate = 0,
     endDate = 3600000, durationMinutes = 60, isMaintenance = False, dependsOnWorkOrderIds = []\<rparr>"

lemma reflow_chain:
  "map_option (map_sum id updatedWorkOrders) (reflow [chainOrder] [chainCenter])
    = Some (Inr [chainOrder\<lparr>startDate := 30000000, endDate := 33600000\<rparr>])"
proof -
  have sh: "shiftsOf [chainCenter] chainOrder = []" "windowsOf [chainCenter] chainOrder = chainWindows"
    by (simp_all add: shiftsOf_def windowsOf_def indexByName_def chainCenter_def chainOrder_def)
  have s: "getNextAvailableStart (startDate chainOrder) [] chainWindows = 30000000"
    using chain_start by (simp add: chainOrder_def)
  have e: "calculateEndDateWithShiftsAndMaintenance 30000000 (durationMinutes chainOrder) []
      (map toRange chainWindows) = 33600000"
    by (simp add: calculateEndDateWithShiftsAndMaintenance_def plusMinutes_def chainOrder_def)
  have v: "validateSchedule [chainOrder\<lparr>startDate := 30000000, endDate := 33600000\<rparr>] [chainCenter]
      = Some \<lparr>valid = True, errors = []\<rparr>"
    by (simp add: validateSchedule_single chainOrder_def shiftStep_def chainCenter_def)
  have d: "dependsOnWorkOrderIds chainOrder = []" "\<not> isMaintenance chainOrder"
    by (simp_all add: chainOrder_def)
  from reflow_single [OF d, of 30000000 "[chainCenter]" 33600000] sh s e v
  show ?thesis by simp
qed

text \<open>
  Reflow fails in two ways only: with the circular-dependency error of the sort and with the
  invalid-schedule error of its post-check. No function raises an error for an exceeded
  iteration bound.
\<close>

lemma reflow_error_kinds:
  assumes "reflow wos wcs = Some (Inl e)"
  shows "(\<exists>ids. e = CircularDependency ids) \<or> (\<exists>errs. e = InvalidSchedule errs)"
proof (cases "topologicalOrder wos")
  case (Inl e')
  with assms have "e = e'" by (simp add: reflow_def)
  with Inl show ?thesis by (auto simp: topologicalOrder_def Let_def split: if_splits)
next
  case (Inr ids)
  from reflow_after_sort [OF Inr, of wcs] obtain l and st :: placerState where
    "reflow wos wcs =
        (case validateSchedule (map (updateOrder (newSchedule st)) wos) wcs of
           None \<Rightarrow> None
         | Some v \<Rightarrow>
             if \<not> valid v then Some (Inl (InvalidSchedule (errors v)))
             else Some (Inr \<lparr>updatedWorkOrders = map (updateOrder (newSchedule st)) wos,
                             changes = changesSoFar st,
                             explanationOf = (if explanationParts st \<noteq> []
                                              then Explained (explanationParts st)
                                              else NoChangesRequired)\<rparr>))"
    by blast
  with assms show ?thesis by (auto split: option.splits if_splits)
qed

text \<open>
  Claim C2: whenever an iteration bound is exceeded, the enclosing call fails with a
  \<open>SchedulingImpossible\<close> error instead of silently returning a value. The code does not do
  this. On the stuck calendar (one shift on Monday from 09:00 to 09:00, at Monday 1970-01-05
  09:00) the stabilization loop and the segment loop run out of iterations and return the
  start, an instant outside every shift, where \<^verbatim>\<open>getNextWorkingMoment\<close> is documented to return
  the next moment that is in shift and not in any maintenance range. On the chain of 501
  windows the placer's loop runs out after 500 iterations and returns an instant inside the
  last window, where \<^verbatim>\<open>getNextAvailableStart\<close> is documented to return the next moment that is
  not inside any maintenance window; reflow of an order on that center returns a schedule
  that starts there. Reflow of an order on the stuck calendar fails with the invalid-schedule
  error of the validator when the center has a maintenance window, and never returns when it
  has none (the validator's unbounded walk).
\<close>

theorem bounds_exceeded_silently:
  "\<not> isWithinShift 378000000 [emptyShift]
   \<and> getNextWorkingMoment 378000000 [emptyShift] [] = 378000000
   \<and> calculateEndDateWithShiftsAndMaintenance 378000000 60 [emptyShift] [] = 378000000
   \<and> isInMaintenance 30000000 chainWindows
   \<and> getNextAvailableStart 0 [] chainWindows = 30000000
   \<and> map_option (map_sum id updatedWorkOrders) (reflow [chainOrder] [chainCenter])
       = Some (Inr [chainOrder\<lparr>startDate := 30000000, endDate := 33600000\<rparr>])
   \<and> reflow [stuckOrder] [stuckCenter\<lparr>maintenanceWindows := [farWindow]\<rparr>]
       = Some (Inl (InvalidSchedule [StartOutsideShift ''WO-S'' 378000000 ''Line9'']))
   \<and> reflow [stuckOrder] [stuckCenter] = None"
  using emptyShift_stuck bounds_stuck [OF _ emptyShift_stuck, where duration = 60 and ranges = "[]"]
    stuck_nextWorkingMomentLoop [OF _ emptyShift_stuck, where n = 1000 and ranges = "[]"]
    chain_still_blocked chain_start reflow_chain reflow_stuck_invalid reflow_stuck_hangs
  by (simp add: getNextWorkingMoment_def)

section \<open>Idempotence\<close>

text \<open>
  An order is settled when its stored start needs no snap (its center has no shift or the start
  is inside one, and the start is in no maintenance window of the center) and its stored end is
  exactly the time-walk of its start and duration. The centers are looked up as the placer
  does.
\<close>

definition settled :: "workCenter list \<Rightarrow> workOrder \<Rightarrow> bool" where
  "settled wcs wo \<longleftrightarrow>
     (shiftsOf wcs wo = [] \<or> isWithinShift (startDate wo) (shiftsOf wcs wo))
     \<and> \<not> isInMaintenance (startDate wo) (windowsOf wcs wo)
     \<and> calculateEndDateWithShiftsAndMaintenance (startDate wo) (durationMinutes wo)
           (shiftsOf wcs wo) (map toRange (windowsOf wcs wo)) = endDate wo"

text \<open>
  The processing order is chronological when, of any two movable orders of one center, the
  one that comes first in the topological order ends no later than the other starts.
\<close>

definition precedes :: "workOrder list \<Rightarrow> string \<Rightarrow> string \<Rightarrow> bool" where
  "precedes wos i j \<longleftrightarrow>
     list_all (\<lambda>a. list_all (\<lambda>b.
        workOrderNumber a = i \<and> workOrderNumber b = j \<and> \<not> isMaintenance a \<and> \<not> isMaintenance b
          \<and> workCenterId a = workCenterId b \<longrightarrow> endDate a \<le> startDate b) wos) wos"

definition chronological :: "workOrder list \<Rightarrow> string list \<Rightarrow> bool" where
  "chronological wos ids = sorted_wrt (precedes wos) ids"

lemma fold_max_le: "x \<le> (b::int) \<Longrightarrow> \<forall>y \<in> set xs. y \<le> b \<Longrightarrow> fold max xs x \<le> b"
  by (induction xs arbitrary: x) auto

lemma lastEndOnCenter_le:
  assumes "\<forall>p \<in> set (scheduledOn sc c). snd p \<le> b" and "lastEndOnCenter sc c = Some m"
  shows "m \<le> b"
proof (cases "scheduledOn sc c")
  case Nil
  with assms(2) show ?thesis by (simp add: lastEndOnCenter_def)
next
  case (Cons x xs)
  with assms(2) have "m = fold max (map snd xs) (snd x)" by (simp add: lastEndOnCenter_def)
  moreover from assms(1) Cons have "snd x \<le> b" and "\<forall>y \<in> set (map snd xs). y \<le> b" by auto
  ultimately show ?thesis using fold_max_le [of "snd x" b "map snd xs"] by simp
qed

lemma parentEndStep_fold_le:
  "\<forall>d \<in> set ds. \<forall>p. byNumber d = Some p \<longrightarrow> parentEndOf sched p \<le> b
    \<Longrightarrow> \<forall>x. m0 = Some x \<longrightarrow> x \<le> b
    \<Longrightarrow> fold (parentEndStep byNumber sched) ds m0 = Some m \<Longrightarrow> m \<le> b"
proof (induction ds arbitrary: m0)
  case Nil
  then show ?case by simp
next
  case (Cons d ds)
  have "\<forall>x. parentEndStep byNumber sched d m0 = Some x \<longrightarrow> x \<le> b"
    using Cons.prems(1,2) by (auto simp: parentEndStep_def split: option.splits if_splits)
  from Cons.IH [OF _ this] Cons.prems show ?case by simp
qed

lemma maxParentEndOf_le:
  assumes "\<forall>d \<in> set (dependsOnWorkOrderIds wo). \<forall>p. byNumber d = Some p \<longrightarrow> parentEndOf sched p \<le> b"
    and "maxParentEndOf byNumber sched wo = Some m"
  shows "m \<le> b"
  using parentEndStep_fold_le [OF assms(1), of None m] assms(2) by (simp add: maxParentEndOf_def)

lemma parentStep_fold_bound:
  "fold (parentStep byNumber wo) ds (m0, es) = (m, es')
    \<Longrightarrow> (\<forall>x. m0 = Some x \<longrightarrow> (\<exists>y. m = Some y \<and> x \<le> y))
      \<and> (\<forall>d \<in> set ds. \<forall>p. byNumber d = Some p \<longrightarrow> (\<exists>y. m = Some y \<and> endDate p \<le> y))"
proof (induction ds arbitrary: m0 es)
  case Nil
  then show ?case by simp
next
  case (Cons d ds)
  obtain m1 e1 where s: "parentStep byNumber wo d (m0, es) = (m1, e1)"
    by (cases "parentStep byNumber wo d (m0, es)")
  with Cons.prems have "fold (parentStep byNumber wo) ds (m1, e1) = (m, es')" by simp
  from Cons.IH [OF this]
  have a: "\<forall>x. m1 = Some x \<longrightarrow> (\<exists>y. m = Some y \<and> x \<le> y)"
    and b: "\<forall>d \<in> set ds. \<forall>p. byNumber d = Some p \<longrightarrow> (\<exists>y. m = Some y \<and> endDate p \<le> y)"
    by blast+
  have c: "\<forall>x. m0 = Some x \<longrightarrow> (\<exists>z. m1 = Some z \<and> x \<le> z)"
    using s by (auto simp: parentStep_def split: option.splits if_splits)
  have d: "\<forall>p. byNumber d = Some p \<longrightarrow> (\<exists>z. m1 = Some z \<and> endDate p \<le> z)"
    using s by (auto simp: parentStep_def split: option.splits if_splits)
  from a c have "\<forall>x. m0 = Some x \<longrightarrow> (\<exists>y. m = Some y \<and> x \<le> y)"
    by (metis order_trans)
  moreover from a d have "\<forall>p. byNumber d = Some p \<longrightarrow> (\<exists>y. m = Some y \<and> endDate p \<le> y)"
    by (metis order_trans)
  ultimately show ?case using b by simp
qed

lemma dependencyStep_clean:
  assumes "dependencyStep byNumber wo [] = []"
    and "d \<in> set (dependsOnWorkOrderIds wo)" and "byNumber d = Some p"
  shows "endDate p \<le> startDate wo"
proof -
  obtain m es where s: "scanParents byNumber wo [] = (m, es)" by (cases "scanParents byNumber wo []")
  then have f: "fold (parentStep byNumber wo) (dependsOnWorkOrderIds wo) (None, []) = (m, es)"
    by (simp add: scanParents_def)
  from parentStep_fold_bound [OF f] assms(2,3) obtain y where y: "m = Some y" "endDate p \<le> y"
    by blast
  from assms(1,2) s y show ?thesis
    by (auto simp: dependencyStep_def split: if_splits)
qed

lemma dependencyStep_fold_clean:
  "fold (dependencyStep byNumber) ws es = [] \<Longrightarrow> w \<in> set ws \<Longrightarrow> dependencyStep byNumber w [] = []"
proof (induction ws arbitrary: es)
  case Nil
  then show ?case by simp
next
  case (Cons x ws)
  from Cons.prems(1) have f: "fold (dependencyStep byNumber) ws (dependencyStep byNumber x es) = []" by simp
  with dependencyStep_fold_mono [of "dependencyStep byNumber x es" byNumber ws]
  have x: "dependencyStep byNumber x es = []" by simp
  with dependencyStep_mono [of es byNumber x] have "es = []" by simp
  with x Cons.IH [OF f] Cons.prems(2) show ?case by auto
qed

lemma valid_dependencies:
  assumes "validateSchedule wos wcs = Some \<lparr>valid = True, errors = []\<rparr>" and "wo \<in> set wos"
    and "d \<in> set (dependsOnWorkOrderIds wo)" and "indexByNumber wos d = Some p"
  shows "endDate p \<le> startDate wo"
proof -
  from assms(1) have "checkShifts wos wcs (checkDependencies wos (checkWorkCenterConflicts wos [])) = Some []"
    by (auto simp: validateSchedule_def checkMaintenance_def Let_def split: option.splits)
  from checkShifts_mono [OF this] have "checkDependencies wos (checkWorkCenterConflicts wos []) = []"
    by simp
  then have "dependencyStep (indexByNumber wos) wo [] = []"
    unfolding checkDependencies_def using assms(2) by (rule dependencyStep_fold_clean)
  from dependencyStep_clean [OF this assms(3,4)] show ?thesis .
qed


text \<open>
  The invariant of the placement loop on a settled, chronological schedule: nothing was
  changed, and every placed order was given its stored start and end.
\<close>

definition unchangedSoFar :: "(string \<rightharpoonup> workOrder) \<Rightarrow> string list \<Rightarrow> placerState \<Rightarrow> bool" where
  "unchangedSoFar byNumber placed st \<longleftrightarrow>
     changesSoFar st = [] \<and> explanationParts st = []
     \<and> (\<forall>i. newSchedule st i =
            (if i \<in> set placed then map_option (\<lambda>w. (startDate w, endDate w)) (byNumber i) else None))
     \<and> (\<forall>c p. p \<in> set (scheduledOn (scheduledByCenter st) c) \<longrightarrow>
            (\<exists>i \<in> set placed. \<exists>w. byNumber i = Some w \<and> workCenterId w = c
               \<and> p = (startDate w, endDate w)))"

lemma getNextAvailableStart_settled:
  assumes "shs = [] \<or> isWithinShift t shs" and "\<not> isInMaintenance t windows"
  shows "getNextAvailableStart t shs windows = t"
  using assms by (auto simp: getNextAvailableStart_def snapToShift_def availableLoop_free)

lemma placeOrder_settled:
  assumes inv: "unchangedSoFar byNumber placed st"
    and b: "byNumber i = Some wo" and nm: "\<not> isMaintenance wo"
    and settled: "settled wcs wo"
    and deps: "\<forall>d \<in> set (dependsOnWorkOrderIds wo). \<forall>p. byNumber d = Some p \<longrightarrow> endDate p \<le> startDate wo"
    and keyed: "\<forall>d p. byNumber d = Some p \<longrightarrow> workOrderNumber p = d"
    and before: "\<forall>j \<in> set placed. \<forall>w. byNumber j = Some w \<and> workCenterId w = workCenterId wo
                    \<longrightarrow> endDate w \<le> startDate wo"
  shows "\<exists>st'. placeOrder byNumber (indexByName wcs) st i = Inr st'
            \<and> unchangedSoFar byNumber (placed @ [i]) st'"
proof -
  from inv have c0: "changesSoFar st = []" and x0: "explanationParts st = []"
    and ns: "\<And>j. newSchedule st j =
            (if j \<in> set placed then map_option (\<lambda>w. (startDate w, endDate w)) (byNumber j) else None)"
    and sc: "\<And>c p. p \<in> set (scheduledOn (scheduledByCenter st) c) \<Longrightarrow>
            (\<exists>j \<in> set placed. \<exists>w. byNumber j = Some w \<and> workCenterId w = c
               \<and> p = (startDate w, endDate w))"
    unfolding unchangedSoFar_def by blast+
  let ?c = "workCenterId wo"
  let ?lastEnd = "lastEndOnCenter (scheduledByCenter st) ?c"
  let ?maxParent = "maxParentEndOf byNumber (newSchedule st) wo"
  have le1: "m \<le> startDate wo" if "?lastEnd = Some m" for m
  proof (rule lastEndOnCenter_le [OF _ that])
    show "\<forall>p \<in> set (scheduledOn (scheduledByCenter st) ?c). snd p \<le> startDate wo"
    proof
      fix p assume "p \<in> set (scheduledOn (scheduledByCenter st) ?c)"
      from sc [OF this] before show "snd p \<le> startDate wo" by auto
    qed
  qed
  have pe: "parentEndOf (newSchedule st) p = endDate p" if "byNumber d = Some p" for d p
  proof -
    from keyed that have "workOrderNumber p = d" by blast
    with that ns [of d] show ?thesis
      by (auto simp: parentEndOf_def split: option.splits)
  qed
  have le2: "m \<le> startDate wo" if "?maxParent = Some m" for m
  proof (rule maxParentEndOf_le [OF _ that])
    show "\<forall>d \<in> set (dependsOnWorkOrderIds wo). \<forall>p. byNumber d = Some p
            \<longrightarrow> parentEndOf (newSchedule st) p \<le> startDate wo"
      using deps pe by auto
  qed
  have floor: "max (max (orElse ?lastEnd (startDate wo)) (orElse ?maxParent (startDate wo))) (startDate wo)
      = startDate wo"
    using le1 le2 by (auto simp: orElse_def split: option.splits)
  from settled have s1: "shiftsOf wcs wo = [] \<or> isWithinShift (startDate wo) (shiftsOf wcs wo)"
    and s2: "\<not> isInMaintenance (startDate wo) (windowsOf wcs wo)"
    and s3: "calculateEndDateWithShiftsAndMaintenance (startDate wo) (durationMinutes wo)
           (shiftsOf wcs wo) (map toRange (windowsOf wcs wo)) = endDate wo"
    unfolding settled_def by blast+
  have sh: "(case indexByName wcs ?c of None \<Rightarrow> [] | Some c \<Rightarrow> shifts c) = shiftsOf wcs wo"
    "(case indexByName wcs ?c of None \<Rightarrow> [] | Some c \<Rightarrow> maintenanceWindows c) = windowsOf wcs wo"
    by (simp_all add: shiftsOf_def windowsOf_def)
  have cand: "candidateStartOf byNumber (indexByName wcs) st wo = startDate wo"
    by (simp add: candidateStartOf_def Let_def sh floor getNextAvailableStart_settled [OF s1 s2])
  define st' where "st' = \<lparr>scheduledByCenter = (scheduledByCenter st)(?c \<mapsto>
                        scheduledOn (scheduledByCenter st) ?c @ [(startDate wo, endDate wo)]),
                   newSchedule = (newSchedule st)(i \<mapsto> (startDate wo, endDate wo)),
                   changesSoFar = [], explanationParts = []\<rparr>"
  have p: "placeOrder byNumber (indexByName wcs) st i = Inr st'"
    by (simp add: placeOrder_def b Let_def sh cand s3 startChange_def endChange_def c0 x0 st'_def)
  have "unchangedSoFar byNumber (placed @ [i]) st'"
    unfolding unchangedSoFar_def
  proof (intro conjI allI impI)
    show "changesSoFar st' = []" and "explanationParts st' = []" by (simp_all add: st'_def)
  next
    fix j show "newSchedule st' j =
        (if j \<in> set (placed @ [i]) then map_option (\<lambda>w. (startDate w, endDate w)) (byNumber j) else None)"
      using ns [of j] b by (simp add: st'_def)
  next
    fix c p assume "p \<in> set (scheduledOn (scheduledByCenter st') c)"
    then consider "p \<in> set (scheduledOn (scheduledByCenter st) c)"
      | "c = ?c" and "p = (startDate wo, endDate wo)"
      by (auto simp: st'_def scheduledOn_def split: if_splits)
    then show "\<exists>j \<in> set (placed @ [i]). \<exists>w. byNumber j = Some w \<and> workCenterId w = c
               \<and> p = (startDate w, endDate w)"
    proof cases
      case 1
      from sc [OF this] show ?thesis by auto
    next
      case 2
      with b show ?thesis by auto
    qed
  qed
  with p show ?thesis by blast
qed


lemma placeAll_settled:
  assumes keyed: "\<forall>d p. byNumber d = Some p \<longrightarrow> workOrderNumber p = d"
  shows "unchangedSoFar byNumber placed st
    \<Longrightarrow> \<forall>i \<in> set l. \<exists>wo. byNumber i = Some wo \<and> \<not> isMaintenance wo \<and> settled wcs wo
          \<and> (\<forall>d \<in> set (dependsOnWorkOrderIds wo). \<forall>p. byNumber d = Some p \<longrightarrow> endDate p \<le> startDate wo)
    \<Longrightarrow> sorted_wrt (\<lambda>i j. \<forall>a b. byNumber i = Some a \<and> byNumber j = Some b
                \<and> workCenterId a = workCenterId b \<longrightarrow> endDate a \<le> startDate b) l
    \<Longrightarrow> \<forall>j \<in> set placed. \<forall>i \<in> set l. \<forall>a b. byNumber j = Some a \<and> byNumber i = Some b
                \<and> workCenterId a = workCenterId b \<longrightarrow> endDate a \<le> startDate b
    \<Longrightarrow> \<exists>st'. placeAll byNumber (indexByName wcs) st l = Inr st'
            \<and> unchangedSoFar byNumber (placed @ l) st'"
proof (induction l arbitrary: placed st)
  case Nil
  then show ?case by simp
next
  case (Cons i l)
  from Cons.prems(2) obtain wo where b: "byNumber i = Some wo" and nm: "\<not> isMaintenance wo"
    and st: "settled wcs wo"
    and deps: "\<forall>d \<in> set (dependsOnWorkOrderIds wo). \<forall>p. byNumber d = Some p \<longrightarrow> endDate p \<le> startDate wo"
    by auto
  from Cons.prems(4) b
  have before: "\<forall>j \<in> set placed. \<forall>w. byNumber j = Some w \<and> workCenterId w = workCenterId wo
                    \<longrightarrow> endDate w \<le> startDate wo"
    by auto
  from placeOrder_settled [OF Cons.prems(1) b nm st deps keyed before]
  obtain st1 where p: "placeOrder byNumber (indexByName wcs) st i = Inr st1"
    and inv1: "unchangedSoFar byNumber (placed @ [i]) st1" by blast
  have rest: "\<forall>i \<in> set l. \<exists>wo. byNumber i = Some wo \<and> \<not> isMaintenance wo \<and> settled wcs wo
          \<and> (\<forall>d \<in> set (dependsOnWorkOrderIds wo). \<forall>p. byNumber d = Some p \<longrightarrow> endDate p \<le> startDate wo)"
    using Cons.prems(2) by simp
  have sorted: "sorted_wrt (\<lambda>i j. \<forall>a b. byNumber i = Some a \<and> byNumber j = Some b
                \<and> workCenterId a = workCenterId b \<longrightarrow> endDate a \<le> startDate b) l"
    using Cons.prems(3) by simp
  have earlier: "\<forall>j \<in> set (placed @ [i]). \<forall>k \<in> set l. \<forall>a b. byNumber j = Some a \<and> byNumber k = Some b
                \<and> workCenterId a = workCenterId b \<longrightarrow> endDate a \<le> startDate b"
  proof (intro ballI)
    fix j k assume j: "j \<in> set (placed @ [i])" and k: "k \<in> set l"
    show "\<forall>a b. byNumber j = Some a \<and> byNumber k = Some b
                \<and> workCenterId a = workCenterId b \<longrightarrow> endDate a \<le> startDate b"
    proof (cases "j = i")
      case True
      with Cons.prems(3) k show ?thesis by simp
    next
      case False
      with j have "j \<in> set placed" by simp
      with Cons.prems(4) k show ?thesis by simp
    qed
  qed
  from Cons.IH [OF inv1 rest sorted earlier] p show ?case by simp
qed

lemma indexByNumber_keyed:
  "indexByNumber wos d = Some p \<Longrightarrow> workOrderNumber p = d \<and> p \<in> set wos"
proof -
  have "fold (\<lambda>wo m. m(workOrderNumber wo \<mapsto> wo)) ws m0 d = Some p
    \<Longrightarrow> (workOrderNumber p = d \<and> p \<in> set ws) \<or> m0 d = Some p" for ws m0
  proof (induction ws arbitrary: m0)
    case Nil
    then show ?case by simp
  next
    case (Cons a ws)
    from Cons.prems have "fold (\<lambda>wo m. m(workOrderNumber wo \<mapsto> wo)) ws (m0(workOrderNumber a \<mapsto> a)) d = Some p"
      by (simp only: fold.simps comp_apply)
    from Cons.IH [OF this] show ?case
      by (auto split: if_splits)
  qed
  from this [of wos Map.empty] show "indexByNumber wos d = Some p \<Longrightarrow> workOrderNumber p = d \<and> p \<in> set wos"
    by (simp add: indexByNumber_def)
qed

lemma indexByNumber_distinct:
  assumes "distinct (map workOrderNumber wos)" and "w \<in> set wos"
  shows "indexByNumber wos (workOrderNumber w) = Some w"
proof -
  from assms(2) have "indexByNumber wos (workOrderNumber w) \<noteq> None"
    by (simp add: indexByNumber_None_iff)
  then obtain p where p: "indexByNumber wos (workOrderNumber w) = Some p" by blast
  from indexByNumber_keyed [OF this] have "workOrderNumber p = workOrderNumber w" and "p \<in> set wos"
    by simp_all
  with assms have "p = w" by (auto simp: distinct_map inj_on_def)
  with p show ?thesis by simp
qed

lemma topologicalOrder_distinct_ids:
  assumes "topologicalOrder wos = Inr ids"
  shows "distinct (map workOrderNumber wos)"
proof -
  from topologicalOrder_ids [OF assms]
  have s: "set ids \<subseteq> workOrderNumber ` set wos" and d: "distinct ids" and l: "length ids = length wos" .
  from d have "length ids = card (set ids)" by (simp add: distinct_card)
  also from s have "\<dots> \<le> card (workOrderNumber ` set wos)" by (simp add: card_mono)
  finally have "length (map workOrderNumber wos) \<le> card (set (map workOrderNumber wos))"
    using l by simp
  moreover have "card (set (map workOrderNumber wos)) \<le> length (map workOrderNumber wos)"
    by (rule card_length)
  ultimately show ?thesis by (simp add: card_distinct)
qed

lemma selectNonMaintenance_filter:
  "\<forall>i \<in> set ids. byNumber i \<noteq> None
    \<Longrightarrow> selectNonMaintenance byNumber ids
        = Inr (filter (\<lambda>i. case byNumber i of None \<Rightarrow> False | Some w \<Rightarrow> \<not> isMaintenance w) ids)"
  by (induction ids) auto


lemma precedes_orders:
  assumes "precedes wos i j" and "indexByNumber wos i = Some a" and "indexByNumber wos j = Some b"
    and "\<not> isMaintenance a" and "\<not> isMaintenance b" and "workCenterId a = workCenterId b"
  shows "endDate a \<le> startDate b"
proof -
  from indexByNumber_keyed [OF assms(2)] indexByNumber_keyed [OF assms(3)]
  have "workOrderNumber a = i" "a \<in> set wos" "workOrderNumber b = j" "b \<in> set wos" by simp_all
  with assms(1,4,5,6) show ?thesis
    unfolding precedes_def list_all_iff by blast
qed

text \<open>
  Claim C1, amended. For a schedule that the validator accepts, whose movable orders are all
  settled, whose dependency graph has a topological order, and whose processing order is
  chronological on every center, reflow returns the input orders unchanged with an empty
  change list, and the validator accepts the output.
\<close>

theorem reflow_idempotent:
  assumes valid: "validateSchedule wos wcs = Some \<lparr>valid = True, errors = []\<rparr>"
    and settled: "\<forall>wo \<in> set wos. \<not> isMaintenance wo \<longrightarrow> settled wcs wo"
    and sort: "topologicalOrder wos = Inr orderIds"
    and chrono: "chronological wos orderIds"
  shows "reflow wos wcs
      = Some (Inr \<lparr>updatedWorkOrders = wos, changes = [], explanationOf = NoChangesRequired\<rparr>)
    \<and> validateSchedule (updatedWorkOrders \<lparr>updatedWorkOrders = wos, changes = [],
          explanationOf = NoChangesRequired\<rparr>) wcs = Some \<lparr>valid = True, errors = []\<rparr>"
proof -
  let ?byNumber = "indexByNumber wos"
  let ?movable = "\<lambda>i. case ?byNumber i of None \<Rightarrow> False | Some w \<Rightarrow> \<not> isMaintenance w"
  let ?l = "filter ?movable orderIds"
  from topologicalOrder_ids(1) [OF sort]
  have known: "\<forall>i \<in> set orderIds. ?byNumber i \<noteq> None"
    by (auto simp: indexByNumber_None_iff)
  have sel: "selectNonMaintenance ?byNumber orderIds = Inr ?l"
    by (rule selectNonMaintenance_filter [OF known])
  have dist: "distinct (map workOrderNumber wos)"
    by (rule topologicalOrder_distinct_ids [OF sort])
  have keyed: "\<forall>d p. ?byNumber d = Some p \<longrightarrow> workOrderNumber p = d"
    using indexByNumber_keyed by blast
  have inv0: "unchangedSoFar ?byNumber [] initialState"
    by (simp add: unchangedSoFar_def initialState_def scheduledOn_def)
  have each: "\<forall>i \<in> set ?l. \<exists>wo. ?byNumber i = Some wo \<and> \<not> isMaintenance wo \<and> settled wcs wo
          \<and> (\<forall>d \<in> set (dependsOnWorkOrderIds wo). \<forall>p. ?byNumber d = Some p \<longrightarrow> endDate p \<le> startDate wo)"
  proof
    fix i assume "i \<in> set ?l"
    then obtain wo where b: "?byNumber i = Some wo" and nm: "\<not> isMaintenance wo"
      by (auto split: option.splits)
    from indexByNumber_keyed [OF b] have m: "wo \<in> set wos" by simp
    with settled nm have "settled wcs wo" by blast
    moreover have "\<forall>d \<in> set (dependsOnWorkOrderIds wo). \<forall>p. ?byNumber d = Some p \<longrightarrow> endDate p \<le> startDate wo"
      using valid_dependencies [OF valid m] by blast
    ultimately show "\<exists>wo. ?byNumber i = Some wo \<and> \<not> isMaintenance wo \<and> settled wcs wo
          \<and> (\<forall>d \<in> set (dependsOnWorkOrderIds wo). \<forall>p. ?byNumber d = Some p \<longrightarrow> endDate p \<le> startDate wo)"
      using b nm by blast
  qed
  from chrono have "sorted_wrt (precedes wos) ?l"
    unfolding chronological_def by (rule sorted_wrt_filter)
  then have sorted: "sorted_wrt (\<lambda>i j. \<forall>a b. ?byNumber i = Some a \<and> ?byNumber j = Some b
                \<and> workCenterId a = workCenterId b \<longrightarrow> endDate a \<le> startDate b) ?l"
  proof (rule sorted_wrt_mono_rel [rotated])
    fix i j assume i: "i \<in> set ?l" and j: "j \<in> set ?l" and p: "precedes wos i j"
    show "\<forall>a b. ?byNumber i = Some a \<and> ?byNumber j = Some b
                \<and> workCenterId a = workCenterId b \<longrightarrow> endDate a \<le> startDate b"
    proof (intro allI impI)
      fix a b assume ab: "?byNumber i = Some a \<and> ?byNumber j = Some b \<and> workCenterId a = workCenterId b"
      with i j have "\<not> isMaintenance a" "\<not> isMaintenance b" by auto
      with precedes_orders [OF p] ab show "endDate a \<le> startDate b" by blast
    qed
  qed
  from placeAll_settled [OF keyed inv0 each sorted]
  obtain st where pl: "placeAll ?byNumber (indexByName wcs) initialState ?l = Inr st"
    and inv: "unchangedSoFar ?byNumber ?l st" by auto
  from inv have c: "changesSoFar st = []" and x: "explanationParts st = []"
    and ns: "\<And>i. newSchedule st i =
            (if i \<in> set ?l then map_option (\<lambda>w. (startDate w, endDate w)) (?byNumber i) else None)"
    unfolding unchangedSoFar_def by simp_all
  have "updateOrder (newSchedule st) w = w" if "w \<in> set wos" for w
    using ns [of "workOrderNumber w"] indexByNumber_distinct [OF dist that]
    by (simp add: updateOrder_def)
  then have u: "map (updateOrder (newSchedule st)) wos = wos"
    by (simp add: map_idI)
  from sort sel pl u valid c x show ?thesis
    by (simp add: reflow_def)
qed


definition followingOrder :: workOrder where
  "followingOrder = \<lparr>workOrderNumber = ''WO-L'', workCenterId = ''Line2'', startDate = 378000000,
     endDate = 381600000, durationMinutes = 60, isMaintenance = False,
     dependsOnWorkOrderIds = [''WO-A'']\<rparr>"

theorem reflow_idempotent_witness:
  "validateSchedule [firstOrder, followingOrder] [shiftCenter] = Some \<lparr>valid = True, errors = []\<rparr>
   \<and> settled [shiftCenter] firstOrder \<and> settled [shiftCenter] followingOrder
   \<and> topologicalOrder [firstOrder, followingOrder] = Inr [''WO-A'', ''WO-L'']
   \<and> chronological [firstOrder, followingOrder] [''WO-A'', ''WO-L'']
   \<and> reflow [firstOrder, followingOrder] [shiftCenter]
       = Some (Inr \<lparr>updatedWorkOrders = [firstOrder, followingOrder], changes = [],
                     explanationOf = NoChangesRequired\<rparr>)"
proof -
  have v: "validateSchedule [firstOrder, followingOrder] [shiftCenter] = Some \<lparr>valid = True, errors = []\<rparr>"
    by code_simp
  have s1: "settled [shiftCenter] firstOrder" by code_simp
  have s2: "settled [shiftCenter] followingOrder" by code_simp
  have t: "topologicalOrder [firstOrder, followingOrder] = Inr [''WO-A'', ''WO-L'']" by code_simp
  have c: "chronological [firstOrder, followingOrder] [''WO-A'', ''WO-L'']" by code_simp
  from s1 s2 have s: "\<forall>wo \<in> set [firstOrder, followingOrder]. \<not> isMaintenance wo \<longrightarrow> settled [shiftCenter] wo"
    by simp
  from reflow_idempotent [OF v s t c] v s1 s2 t c show ?thesis by simp
qed

text \<open>
  The claim as stated is false. Two independent orders of one center, stored without overlap
  but listed later-first, are valid, and reflow moves the second behind the first. A valid
  order that starts inside a maintenance window (its stored end accounts for the pause) is
  moved to the end of the window. Two orders of duration zero at the same instant that depend
  on each other are valid, and reflow fails with the circular-dependency error.
\<close>

definition slotLate :: workOrder where
  "slotLate = \<lparr>workOrderNumber = ''WO-2'', workCenterId = ''Line1'', startDate = 3600000,
     endDate = 7200000, durationMinutes = 60, isMaintenance = False, dependsOnWorkOrderIds = []\<rparr>"

definition slotEarly :: workOrder where
  "slotEarly = \<lparr>workOrderNumber = ''WO-1'', workCenterId = ''Line1'', startDate = 0,
     endDate = 3600000, durationMinutes = 60, isMaintenance = False, dependsOnWorkOrderIds = []\<rparr>"

definition blockedCenter :: workCenter where
  "blockedCenter = \<lparr>name = ''Line3'', shifts = mondayShifts,
     maintenanceWindows = [\<lparr>winStartDate = 374400000, winEndDate = 378000000, reason = None\<rparr>]\<rparr>"

definition blockedOrder :: workOrder where
  "blockedOrder = \<lparr>workOrderNumber = ''WO-M'', workCenterId = ''Line3'', startDate = 374400000,
     endDate = 381600000, durationMinutes = 60, isMaintenance = False, dependsOnWorkOrderIds = []\<rparr>"

definition instantA :: workOrder where
  "instantA = \<lparr>workOrderNumber = ''A'', workCenterId = ''Line1'', startDate = 0,
     endDate = 0, durationMinutes = 0, isMaintenance = False, dependsOnWorkOrderIds = [''B'']\<rparr>"

definition instantB :: workOrder where
  "instantB = \<lparr>workOrderNumber = ''B'', workCenterId = ''Line4'', startDate = 0,
     endDate = 0, durationMinutes = 0, isMaintenance = False, dependsOnWorkOrderIds = [''A'']\<rparr>"

theorem reflow_idempotent_counterexample:
  "validateSchedule [slotLate, slotEarly] [] = Some \<lparr>valid = True, errors = []\<rparr>
   \<and> map_option (map_sum id updatedWorkOrders) (reflow [slotLate, slotEarly] [])
       = Some (Inr [slotLate, slotEarly\<lparr>startDate := 7200000, endDate := 10800000\<rparr>])
   \<and> map_option (map_sum id (map newValue \<circ> changes)) (reflow [slotLate, slotEarly] [])
       = Some (Inr [7200000, 10800000])
   \<and> validateSchedule [blockedOrder] [blockedCenter] = Some \<lparr>valid = True, errors = []\<rparr>
   \<and> map_option (map_sum id (map newValue \<circ> changes)) (reflow [blockedOrder] [blockedCenter])
       = Some (Inr [378000000])
   \<and> validateSchedule [instantA, instantB] [] = Some \<lparr>valid = True, errors = []\<rparr>
   \<and> reflow [instantA, instantB] [] = Some (Inl (CircularDependency [''A'', ''B'']))"
  by code_simp

section \<open>Duration conservation\<close>

subsection \<open>Calendar arithmetic\<close>

text \<open>
  Division with remainder on instants: the day, the hour and the start of the day of an
  instant, as intervals.
\<close>

lemma div_bounds:
  fixes a k :: int
  assumes "0 < k"
  shows "k * (a div k) \<le> a" and "a < k * (a div k) + k"
proof -
  have "a = k * (a div k) + a mod k" by simp
  moreover from assms have "0 \<le> a mod k" and "a mod k < k" by simp_all
  ultimately show "k * (a div k) \<le> a" and "a < k * (a div k) + k" by linarith+
qed

lemma div_eqI:
  fixes a k q :: int
  assumes "k * q \<le> a" and "a < k * q + k"
  shows "a div k = q"
proof (rule int_div_pos_eq [where r = "a - k * q"])
  show "a = k * q + (a - k * q)" by simp
  from assms show "0 \<le> a - k * q" and "a - k * q < k" by simp_all
qed

lemma div_less_iff:
  fixes a k n :: int
  assumes "0 < k"
  shows "a div k < n \<longleftrightarrow> a < k * n"
proof
  assume "a div k < n"
  then have "a div k + 1 \<le> n" by simp
  with assms have "k * (a div k + 1) \<le> k * n" by (simp add: mult_left_mono)
  with div_bounds(2) [OF assms, of a] show "a < k * n" by (simp add: algebra_simps)
next
  assume l: "a < k * n"
  show "a div k < n"
  proof (rule ccontr)
    assume "\<not> a div k < n"
    then have "n \<le> a div k" by simp
    with assms have "k * n \<le> k * (a div k)" by (simp add: mult_left_mono)
    with div_bounds(1) [OF assms, of a] l show False by simp
  qed
qed

lemma le_div_iff:
  fixes a k n :: int
  assumes "0 < k"
  shows "n \<le> a div k \<longleftrightarrow> k * n \<le> a"
  using div_less_iff [OF assms, of a n] by auto

text \<open>The plan's day of the week (0 = Sunday) of an instant.\<close>

definition dow :: "instant \<Rightarrow> int" where
  "dow t = toPlanDayOfWeek (weekday t)"

lemma dow_eq: "dow t = (t div 86400000 + 4) mod 7"
proof -
  have "(if (q + 3) mod 7 + 1 = 7 then 0 else (q + 3) mod 7 + 1) = (q + 4) mod 7" for q :: int
  proof -
    have r: "0 \<le> (q + 3) mod 7" "(q + 3) mod 7 < 7" by simp_all
    have "((q + 3) mod 7 + 1) mod 7 = (q + 3 + 1) mod 7" by (rule mod_add_left_eq)
    then have "(q + 4) mod 7 = ((q + 3) mod 7 + 1) mod 7" by (simp add: add.commute)
    with r show ?thesis by (simp add: mod_pos_pos_trivial)
  qed
  then show ?thesis
    by (simp add: dow_def toPlanDayOfWeek_def weekday_def)
qed

lemma isInShift_iff:
  "isInShift t s \<longleftrightarrow> dayOfWeek s = dow t \<and> startHour s \<le> hour t \<and> hour t < endHour s"
  unfolding isInShift_def dow_def Let_def by auto

lemma startOfDay_eq: "startOfDay t = 86400000 * (t div 86400000)"
  by (simp add: startOfDay_def minus_mod_eq_mult_div)

lemma startOfDay_bounds: "startOfDay t \<le> t" "t < startOfDay t + 86400000"
  using div_bounds [of 86400000 t] by (simp_all add: startOfDay_eq)

lemma same_day:
  assumes "startOfDay t \<le> u" and "u < startOfDay t + 86400000"
  shows "u div 86400000 = t div 86400000" and "startOfDay u = startOfDay t" and "dow u = dow t"
proof -
  from assms show d: "u div 86400000 = t div 86400000"
    unfolding startOfDay_eq by (rule div_eqI)
  then show "startOfDay u = startOfDay t" and "dow u = dow t"
    by (simp_all add: startOfDay_eq dow_eq)
qed

lemma hour_eq: "hour t = (t - startOfDay t) div 3600000"
  by (simp add: hour_def startOfDay_def)

lemma hour_ge_iff: "h \<le> hour t \<longleftrightarrow> startOfDay t + h * 3600000 \<le> t"
  using le_div_iff [of 3600000 h "t - startOfDay t"] by (auto simp: hour_eq)

lemma hour_less_iff: "hour t < h \<longleftrightarrow> t < startOfDay t + h * 3600000"
  using div_less_iff [of 3600000 "t - startOfDay t" h] by (auto simp: hour_eq)

lemma isInShift_interval:
  "isInShift t s \<longleftrightarrow> dayOfWeek s = dow t
     \<and> setHour t (startHour s) \<le> t \<and> t < setHour t (endHour s)"
  by (simp add: isInShift_iff hour_ge_iff hour_less_iff setHour_def)

text \<open>
  A shift is well formed when its day is one of the seven days of the plan and its hours
  satisfy \<open>0 \<le> startHour < endHour \<le> 24\<close>. Inside such a shift, every instant up to the end
  hour of the same day is inside the shift.
\<close>

definition wellFormedShift :: "shift \<Rightarrow> bool" where
  "wellFormedShift s \<longleftrightarrow>
     0 \<le> dayOfWeek s \<and> dayOfWeek s \<le> 6 \<and> 0 \<le> startHour s \<and> startHour s < endHour s \<and> endHour s \<le> 24"

lemma shift_segment:
  assumes wf: "wellFormedShift s" and "isInShift t s" and "t \<le> u" and "u < setHour t (endHour s)"
  shows "isInShift u s"
proof -
  from assms(2) have d: "dayOfWeek s = dow t" and lo: "setHour t (startHour s) \<le> t"
    by (simp_all add: isInShift_interval)
  from wf have "endHour s \<le> 24" by (simp add: wellFormedShift_def)
  then have "setHour t (endHour s) \<le> startOfDay t + 86400000" by (simp add: setHour_def)
  with assms(3,4) startOfDay_bounds(1) [of t]
  have a: "startOfDay t \<le> u" and b: "u < startOfDay t + 86400000" by linarith+
  from same_day [OF a b] have "startOfDay u = startOfDay t" and "dow u = dow t" by simp_all
  with d lo assms(3,4) show ?thesis
    by (simp add: isInShift_interval setHour_def)
qed

lemma shift_segment_nonempty:
  assumes "isInShift t s"
  shows "t < setHour t (endHour s)"
  using assms by (simp add: isInShift_interval)


subsection \<open>The shift calendar\<close>

lemma getShiftSegmentEnd_step:
  "getShiftSegmentEnd t (s # rest) = (if isInShift t s then setHour t (endHour s) else getShiftSegmentEnd t rest)"
  by (auto simp: isInShift_iff dow_def)

lemma getShiftSegmentEnd_within:
  assumes "\<forall>s \<in> set shs. wellFormedShift s" and "isWithinShift t shs"
  shows "t < getShiftSegmentEnd t shs"
    and "\<And>u. t \<le> u \<Longrightarrow> u < getShiftSegmentEnd t shs \<Longrightarrow> isWithinShift u shs"
    and "\<exists>h. getShiftSegmentEnd t shs = startOfDay t + h * 3600000"
proof -
  have "t < getShiftSegmentEnd t shs
      \<and> (\<forall>u. t \<le> u \<and> u < getShiftSegmentEnd t shs \<longrightarrow> isWithinShift u shs)
      \<and> (\<exists>h. getShiftSegmentEnd t shs = startOfDay t + h * 3600000)"
    using assms
  proof (induction shs)
    case Nil
    then show ?case by (simp add: isWithinShift_def)
  next
    case (Cons s rest)
    show ?case
    proof (cases "isInShift t s")
      case True
      from Cons.prems(1) have wf: "wellFormedShift s" by simp
      have e: "getShiftSegmentEnd t (s # rest) = setHour t (endHour s)"
        using True by (simp only: getShiftSegmentEnd_step if_True)
      have "isWithinShift u (s # rest)" if "t \<le> u" and "u < setHour t (endHour s)" for u
        using shift_segment [OF wf True that] by (simp add: isWithinShift_def)
      with shift_segment_nonempty [OF True] e show ?thesis
        by (auto simp: setHour_def simp del: getShiftSegmentEnd.simps)
    next
      case False
      then have e: "getShiftSegmentEnd t (s # rest) = getShiftSegmentEnd t rest"
        by (simp only: getShiftSegmentEnd_step if_False)
      from False Cons.prems(2) have w: "isWithinShift t rest" by (simp add: isWithinShift_def)
      from Cons.prems(1) have "\<forall>s \<in> set rest. wellFormedShift s" by simp
      from Cons.IH [OF this w] e show ?thesis
        by (auto simp: isWithinShift_def simp del: getShiftSegmentEnd.simps)
    qed
  qed
  then show "t < getShiftSegmentEnd t shs"
    and "\<And>u. t \<le> u \<Longrightarrow> u < getShiftSegmentEnd t shs \<Longrightarrow> isWithinShift u shs"
    and "\<exists>h. getShiftSegmentEnd t shs = startOfDay t + h * 3600000"
    by blast+
qed

text \<open>
  \<^verbatim>\<open>getNextShiftStart\<close> keeps the least candidate \<open>day.set({hour: startHour})\<close> that is not
  before \<open>dt\<close>, over the eight days from \<open>dt\<close> and the shifts of each day.
\<close>

definition scanStep :: "instant \<Rightarrow> instant \<Rightarrow> shift \<Rightarrow> instant option \<Rightarrow> instant option" where
  "scanStep dt day s best =
     (if dayOfWeek s \<noteq> dow day then best
      else if setHour day (startHour s) \<ge> dt
              \<and> (case best of None \<Rightarrow> True | Some b \<Rightarrow> setHour day (startHour s) < b)
           then Some (setHour day (startHour s)) else best)"

lemma scanShiftStarts_fold: "scanShiftStarts dt day shs best = fold (scanStep dt day) shs best"
  unfolding scanShiftStarts_def scanStep_def dow_def Let_def by (rule refl)

lemma scan_result:
  assumes "scanShiftStarts dt day shs best0 = Some b"
  shows "best0 = Some b
    \<or> (\<exists>s \<in> set shs. dayOfWeek s = dow day \<and> b = setHour day (startHour s) \<and> dt \<le> b)"
  using assms unfolding scanShiftStarts_fold
proof (induction shs arbitrary: best0)
  case Nil
  then show ?case by simp
next
  case (Cons s rest)
  from Cons.prems have "fold (scanStep dt day) rest (scanStep dt day s best0) = Some b" by simp
  from Cons.IH [OF this] show ?case
    by (auto simp: scanStep_def split: if_splits)
qed

lemma scan_keeps:
  "best0 = Some b0 \<Longrightarrow> \<exists>b. scanShiftStarts dt day shs best0 = Some b \<and> b \<le> b0"
  unfolding scanShiftStarts_fold
proof (induction shs arbitrary: best0 b0)
  case Nil
  then show ?case by simp
next
  case (Cons s rest)
  from Cons.prems have "\<exists>b1. scanStep dt day s best0 = Some b1 \<and> b1 \<le> b0"
    by (simp add: scanStep_def)
  then obtain b1 where b1: "scanStep dt day s best0 = Some b1" and "b1 \<le> b0" by blast
  from Cons.IH [OF b1] obtain b where "fold (scanStep dt day) rest (scanStep dt day s best0) = Some b"
    and "b \<le> b1" by blast
  with \<open>b1 \<le> b0\<close> show ?case by auto
qed

lemma scan_finds:
  assumes "s \<in> set shs" and "dayOfWeek s = dow day" and "dt \<le> setHour day (startHour s)"
  shows "\<exists>b. scanShiftStarts dt day shs best0 = Some b \<and> b \<le> setHour day (startHour s)"
  using assms(1) unfolding scanShiftStarts_fold
proof (induction shs arbitrary: best0)
  case Nil
  then show ?case by simp
next
  case (Cons x rest)
  show ?case
  proof (cases "s = x")
    case True
    with assms(2,3) have "\<exists>b1. scanStep dt day x best0 = Some b1 \<and> b1 \<le> setHour day (startHour s)"
      by (cases best0) (simp_all add: scanStep_def)
    then obtain b1 where b1: "scanStep dt day x best0 = Some b1"
      and le: "b1 \<le> setHour day (startHour s)" by blast
    from scan_keeps [OF b1, of dt day rest] le show ?thesis
      unfolding scanShiftStarts_fold by auto
  next
    case False
    with Cons.prems have "s \<in> set rest" by simp
    from Cons.IH [OF this] show ?thesis by simp
  qed
qed


lemma shift_interval:
  assumes wf: "wellFormedShift s" and "isInShift t s"
    and "setHour t (startHour s) \<le> u" and "u < setHour t (endHour s)"
  shows "isInShift u s"
proof -
  from assms(2) have d: "dayOfWeek s = dow t" by (simp add: isInShift_interval)
  from wf have "endHour s \<le> 24" and "0 \<le> startHour s" by (simp_all add: wellFormedShift_def)
  then have "setHour t (endHour s) \<le> startOfDay t + 86400000"
    and "startOfDay t \<le> setHour t (startHour s)" by (simp_all add: setHour_def)
  with assms(3,4) have a: "startOfDay t \<le> u" and b: "u < startOfDay t + 86400000" by linarith+
  from same_day [OF a b] have "startOfDay u = startOfDay t" and "dow u = dow t" by simp_all
  with d assms(3,4) show ?thesis
    by (simp add: isInShift_interval setHour_def)
qed

lemma startOfDay_plus_days: "startOfDay (t + d * 86400000) = startOfDay t + d * 86400000"
  by (simp add: startOfDay_def)

lemma div_plus_days: "(t + d * 86400000) div 86400000 = t div 86400000 + (d :: int)"
  by simp

lemma dow_plus_days: "dow (t + d * 86400000) = (t div 86400000 + d + 4) mod 7"
  by (simp only: dow_eq div_plus_days)

lemma day_exists:
  fixes q k :: int
  assumes "0 \<le> k" and "k \<le> 6"
  shows "\<exists>d. 1 \<le> d \<and> d \<le> 7 \<and> (q + d + 4) mod 7 = k"
proof -
  define d where "d = (k - q - 5) mod 7 + 1"
  have "0 \<le> (k - q - 5) mod 7" and "(k - q - 5) mod 7 < 7" by simp_all
  then have "1 \<le> d" and "d \<le> 7" by (simp_all add: d_def)
  moreover have "(q + d + 4) mod 7 = k"
  proof -
    have "(q + d + 4) mod 7 = ((k - q - 5) mod 7 + (q + 5)) mod 7"
      by (simp add: d_def algebra_simps)
    also have "\<dots> = ((k - q - 5) + (q + 5)) mod 7" by (rule mod_add_left_eq)
    also have "\<dots> = k" using assms by simp
    finally show ?thesis .
  qed
  ultimately show ?thesis by blast
qed

lemma small_day: "0 \<le> q \<Longrightarrow> q \<le> 7 \<Longrightarrow> q \<in> set [0, 1, 2, 3, 4, 5, 6, 7 :: int]"
  by (simp; arith)

definition dayFold :: "instant \<Rightarrow> shift list \<Rightarrow> int list \<Rightarrow> instant option \<Rightarrow> instant option" where
  "dayFold dt shs ds best0 = fold (\<lambda>d best. scanShiftStarts dt (dt + d * 86400000) shs best) ds best0"

lemma dayFold_Cons:
  "dayFold dt shs (d # ds) best0 = dayFold dt shs ds (scanShiftStarts dt (dt + d * 86400000) shs best0)"
  by (simp add: dayFold_def)

lemma days_result:
  assumes "dayFold dt shs ds best0 = Some b"
  shows "best0 = Some b
    \<or> (\<exists>d \<in> set ds. \<exists>s \<in> set shs. dayOfWeek s = dow (dt + d * 86400000)
          \<and> b = setHour (dt + d * 86400000) (startHour s) \<and> dt \<le> b)"
  using assms
proof (induction ds arbitrary: best0)
  case Nil
  then show ?case by (simp add: dayFold_def)
next
  case (Cons d ds)
  from Cons.prems have "dayFold dt shs ds (scanShiftStarts dt (dt + d * 86400000) shs best0) = Some b"
    by (simp only: dayFold_Cons)
  from Cons.IH [OF this] show ?case
  proof
    assume "scanShiftStarts dt (dt + d * 86400000) shs best0 = Some b"
    from scan_result [OF this] show ?thesis by auto
  next
    assume "\<exists>d \<in> set ds. \<exists>s \<in> set shs. dayOfWeek s = dow (dt + d * 86400000)
          \<and> b = setHour (dt + d * 86400000) (startHour s) \<and> dt \<le> b"
    then show ?thesis by auto
  qed
qed

lemma days_result_None:
  assumes "dayFold dt shs ds None = Some b"
  shows "\<exists>d \<in> set ds. \<exists>s \<in> set shs. dayOfWeek s = dow (dt + d * 86400000)
          \<and> b = setHour (dt + d * 86400000) (startHour s) \<and> dt \<le> b"
  using days_result [OF assms] by simp

lemma days_keeps:
  "best0 = Some b0 \<Longrightarrow> \<exists>b. dayFold dt shs ds best0 = Some b \<and> b \<le> b0"
proof (induction ds arbitrary: best0 b0)
  case Nil
  then show ?case by (simp add: dayFold_def)
next
  case (Cons d ds)
  from scan_keeps [OF Cons.prems, of dt "dt + d * 86400000" shs]
  obtain b1 where b1: "scanShiftStarts dt (dt + d * 86400000) shs best0 = Some b1" and "b1 \<le> b0"
    by blast
  from Cons.IH [OF b1] obtain b where "dayFold dt shs ds (scanShiftStarts dt (dt + d * 86400000) shs best0) = Some b"
    and "b \<le> b1" by blast
  with \<open>b1 \<le> b0\<close> show ?case by (auto simp only: dayFold_Cons)
qed

lemma days_finds:
  assumes "d \<in> set ds" and "s \<in> set shs" and "dayOfWeek s = dow (dt + d * 86400000)"
    and "dt \<le> setHour (dt + d * 86400000) (startHour s)"
  shows "\<exists>b. dayFold dt shs ds best0 = Some b \<and> b \<le> setHour (dt + d * 86400000) (startHour s)"
  using assms(1)
proof (induction ds arbitrary: best0)
  case Nil
  then show ?case by simp
next
  case (Cons x rest)
  show ?case
  proof (cases "d = x")
    case True
    from scan_finds [OF assms(2,3,4), of best0] True
    obtain b1 where b1: "scanShiftStarts dt (dt + x * 86400000) shs best0 = Some b1"
      and le: "b1 \<le> setHour (dt + d * 86400000) (startHour s)" by blast
    from days_keeps [OF b1, of dt shs rest] le show ?thesis
      by (auto simp only: dayFold_Cons)
  next
    case False
    with Cons.prems have "d \<in> set rest" by simp
    from Cons.IH [OF this] show ?thesis by (simp only: dayFold_Cons)
  qed
qed

lemma getNextShiftStart_dayFold:
  "shs \<noteq> [] \<Longrightarrow> getNextShiftStart dt shs =
     (case dayFold dt shs [0, 1, 2, 3, 4, 5, 6, 7] None of None \<Rightarrow> dt | Some b \<Rightarrow> b)"
  by (simp add: getNextShiftStart_def dayFold_def)

lemma getNextShiftStart_spec:
  assumes wf: "\<forall>s \<in> set shs. wellFormedShift s" and ne: "shs \<noteq> []"
    and out: "\<not> isWithinShift t shs"
  shows "t \<le> getNextShiftStart t shs"
    and "isWithinShift (getNextShiftStart t shs) shs"
    and "\<And>u. t \<le> u \<Longrightarrow> u < getNextShiftStart t shs \<Longrightarrow> \<not> isWithinShift u shs"
    and "\<exists>h. getNextShiftStart t shs = startOfDay (getNextShiftStart t shs) + h * 3600000"
proof -
  let ?D = "86400000 :: int"
  let ?days = "[0, 1, 2, 3, 4, 5, 6, 7] :: int list"
  from ne obtain s0 where s0: "s0 \<in> set shs" by (cases shs) auto
  with wf have wf0: "wellFormedShift s0" by simp
  then have k: "0 \<le> dayOfWeek s0" "dayOfWeek s0 \<le> 6" and h0: "0 \<le> startHour s0" "startHour s0 < 24"
    by (simp_all add: wellFormedShift_def)
  from day_exists [OF k, of "t div ?D"] obtain d0 where d0: "1 \<le> d0" "d0 \<le> 7"
    and m0: "(t div ?D + d0 + 4) mod 7 = dayOfWeek s0" by blast
  let ?c0 = "setHour (t + d0 * ?D) (startHour s0)"
  have c0: "?c0 = startOfDay t + d0 * ?D + startHour s0 * 3600000"
    by (simp only: setHour_def startOfDay_plus_days)
  from d0 h0 startOfDay_bounds [of t] have c0lo: "t \<le> ?c0" and c0hi: "?c0 < startOfDay t + 8 * ?D"
    unfolding c0 by linarith+
  from d0 have d0in: "d0 \<in> set ?days" by (intro small_day) simp_all
  from m0 have dw0: "dayOfWeek s0 = dow (t + d0 * ?D)" by (simp only: dow_plus_days)
  from days_finds [OF d0in s0 dw0 c0lo, of None]
  obtain b where b: "dayFold t shs ?days None = Some b" and ble: "b \<le> ?c0" by blast
  from ne b have r: "getNextShiftStart t shs = b" by (simp add: getNextShiftStart_dayFold)
  from days_result_None [OF b] obtain d1 s1 where d1: "d1 \<in> set ?days" and s1: "s1 \<in> set shs"
    and dw1: "dayOfWeek s1 = dow (t + d1 * ?D)"
    and b1: "b = setHour (t + d1 * ?D) (startHour s1)" and tb: "t \<le> b" by blast
  from s1 wf have wf1: "wellFormedShift s1" by simp
  then have h1: "0 \<le> startHour s1" "startHour s1 < endHour s1" "endHour s1 \<le> 24"
    by (simp_all add: wellFormedShift_def)
  have bb: "b = startOfDay (t + d1 * ?D) + startHour s1 * 3600000"
    by (simp only: b1 setHour_def)
  from h1 have "startOfDay (t + d1 * ?D) \<le> b" and "b < startOfDay (t + d1 * ?D) + ?D"
    unfolding bb by linarith+
  from same_day [OF this] have sb: "startOfDay b = startOfDay (t + d1 * ?D)"
    and db: "dow b = dow (t + d1 * ?D)" by simp_all
  have dwb: "dayOfWeek s1 = dow b" by (simp only: db dw1)
  have e1: "setHour b (startHour s1) = b"
    unfolding setHour_def sb using bb by simp
  have e2: "b < setHour b (endHour s1)"
    unfolding setHour_def sb using bb h1 by simp
  have "isInShift b s1"
    unfolding isInShift_interval using dwb e1 e2 by simp
  with s1 have win: "isWithinShift b shs" by (auto simp: isWithinShift_def list_ex_iff)
  have gap: "\<not> isWithinShift u shs" if u1: "t \<le> u" and u2: "u < b" for u
  proof
    assume "isWithinShift u shs"
    then obtain s2 where s2: "s2 \<in> set shs" and in2: "isInShift u s2"
      by (auto simp: isWithinShift_def list_ex_iff)
    from s2 wf have wf2: "wellFormedShift s2" by simp
    define q where "q = u div ?D - t div ?D"
    from u1 have "t div ?D \<le> u div ?D" by (rule zdiv_mono1) simp
    then have q0: "0 \<le> q" by (simp add: q_def)
    from u2 ble c0hi have "u < ?D * (t div ?D + 8)" by (simp add: startOfDay_eq)
    then have "u div ?D < t div ?D + 8" by (subst div_less_iff) simp_all
    then have q7: "q \<le> 7" by (simp add: q_def)
    from q0 q7 have qin: "q \<in> set ?days" by (rule small_day)
    have su: "startOfDay (t + q * ?D) = startOfDay u"
      by (simp add: startOfDay_plus_days startOfDay_eq q_def algebra_simps)
    have "dow (t + q * ?D) = (t div ?D + q + 4) mod 7" by (rule dow_plus_days)
    also have "\<dots> = (u div ?D + 4) mod 7" by (simp add: q_def)
    also have "\<dots> = dow u" by (simp only: dow_eq)
    finally have du: "dow (t + q * ?D) = dow u" .
    have cu: "setHour (t + q * ?D) (startHour s2) = setHour u (startHour s2)"
      by (simp only: setHour_def su)
    from in2 have i2: "dayOfWeek s2 = dow u" "setHour u (startHour s2) \<le> u" "u < setHour u (endHour s2)"
      by (simp_all add: isInShift_interval)
    show False
    proof (cases "t \<le> setHour u (startHour s2)")
      case True
      from i2(1) du have "dayOfWeek s2 = dow (t + q * ?D)" by simp
      from days_finds [OF qin s2 this, of None] True cu b
      have "b \<le> setHour u (startHour s2)" by simp
      with i2(2) u2 show False by simp
    next
      case False
      then have "setHour u (startHour s2) \<le> t" by simp
      from shift_interval [OF wf2 in2 this] u1 i2(3) have "isInShift t s2" by simp
      with s2 out show False by (auto simp: isWithinShift_def list_ex_iff)
    qed
  qed
  from tb r show "t \<le> getNextShiftStart t shs" by simp
  from win r show "isWithinShift (getNextShiftStart t shs) shs" by simp
  from gap r show "\<And>u. t \<le> u \<Longrightarrow> u < getNextShiftStart t shs \<Longrightarrow> \<not> isWithinShift u shs" by simp
  from sb bb r show "\<exists>h. getNextShiftStart t shs = startOfDay (getNextShiftStart t shs) + h * 3600000"
    by auto
qed


subsection \<open>Working time\<close>

text \<open>
  The measure of the claim, in the spec's words: an instant is working when it lies inside a
  shift and outside every maintenance range, and the working time between \<open>a\<close> and \<open>b\<close> is the
  number of working instants (milliseconds) \<open>t\<close> with \<open>a \<le> t < b\<close>; one minute is \<open>60000\<close> of
  them. An instant is on the minute when it is a whole number of minutes.
\<close>

definition onMinute :: "instant \<Rightarrow> bool" where
  "onMinute t \<longleftrightarrow> t mod 60000 = 0"

lemma onMinute_hour: "onMinute (startOfDay t + h * 3600000)"
proof -
  have "startOfDay t + h * 3600000 = 60000 * (1440 * (t div 86400000) + 60 * h)"
    by (simp add: startOfDay_eq)
  then show ?thesis by (simp only: onMinute_def mod_mult_self1_is_0)
qed

lemma onMinute_diff:
  assumes "onMinute a" and "onMinute b"
  shows "b - a = 60000 * ((b - a) div 60000)"
proof -
  from assms have "60000 dvd b" and "60000 dvd a"
    by (simp_all add: onMinute_def mod_eq_0_iff_dvd)
  then have "60000 dvd b - a" by (rule dvd_diff)
  then show ?thesis by (simp only: dvd_mult_div_cancel)
qed

definition working :: "shift list \<Rightarrow> maintenanceRange list \<Rightarrow> instant \<Rightarrow> bool" where
  "working shs ranges t \<longleftrightarrow> isWithinShift t shs \<and> \<not> isInMaintenanceRange t ranges"

definition workingMillis :: "shift list \<Rightarrow> maintenanceRange list \<Rightarrow> instant \<Rightarrow> instant \<Rightarrow> int" where
  "workingMillis shs ranges a b = int (card {t. a \<le> t \<and> t < b \<and> working shs ranges t})"

lemma workingMillis_split:
  assumes "a \<le> b" and "b \<le> c"
  shows "workingMillis shs ranges a c = workingMillis shs ranges a b + workingMillis shs ranges b c"
proof -
  let ?W = "working shs ranges"
  let ?A = "{t. a \<le> t \<and> t < b \<and> ?W t}" and ?B = "{t. b \<le> t \<and> t < c \<and> ?W t}"
  have "?A \<subseteq> {a..<b}" and "?B \<subseteq> {b..<c}" by auto
  then have f: "finite ?A" "finite ?B" by (auto intro: finite_subset)
  have d: "?A \<inter> ?B = {}" by auto
  from assms have "{t. a \<le> t \<and> t < c \<and> ?W t} = ?A \<union> ?B" by auto
  then have "card {t. a \<le> t \<and> t < c \<and> ?W t} = card ?A + card ?B"
    using card_Un_disjoint [OF f d] by simp
  then show ?thesis by (simp add: workingMillis_def)
qed

lemma workingMillis_all:
  assumes "a \<le> b" and "\<And>t. a \<le> t \<Longrightarrow> t < b \<Longrightarrow> working shs ranges t"
  shows "workingMillis shs ranges a b = b - a"
proof -
  from assms(2) have "{t. a \<le> t \<and> t < b \<and> working shs ranges t} = {a..<b}" by auto
  with assms(1) show ?thesis by (simp add: workingMillis_def)
qed

lemma workingMillis_none:
  assumes "\<And>t. a \<le> t \<Longrightarrow> t < b \<Longrightarrow> \<not> working shs ranges t"
  shows "workingMillis shs ranges a b = 0"
proof -
  from assms have e: "{t. a \<le> t \<and> t < b \<and> working shs ranges t} = {}" by blast
  show ?thesis unfolding workingMillis_def e by simp
qed

lemma getMaintenanceRangeEnd_in:
  assumes "isInMaintenanceRange c ranges"
  shows "\<exists>r \<in> set ranges. inRange c r \<and> getMaintenanceRangeEnd c ranges = Some (rangeEnd r)"
  using assms unfolding isInMaintenanceRange_def getMaintenanceRangeEnd_def
  by (induction ranges) auto

subsection \<open>The time walk\<close>

text \<open>
  \<^verbatim>\<open>getNextWorkingMoment\<close> uses at most two iterations for each maintenance range that ends
  after the current instant, and two more.
\<close>

definition openRanges :: "maintenanceRange list \<Rightarrow> instant \<Rightarrow> nat" where
  "openRanges ranges c = length (filter (\<lambda>r. c < rangeEnd r) ranges)"

lemma openRanges_le: "openRanges ranges c \<le> length ranges"
  by (simp add: openRanges_def)

lemma openRanges_mono: "c \<le> c' \<Longrightarrow> openRanges ranges c' \<le> openRanges ranges c"
  unfolding openRanges_def by (induction ranges) auto

lemma openRanges_drop:
  assumes "r \<in> set ranges" and "c < rangeEnd r"
  shows "openRanges ranges (rangeEnd r) < openRanges ranges c"
  using assms(1)
proof (induction ranges)
  case Nil
  then show ?case by simp
next
  case (Cons x rest)
  from assms(2) have le: "c \<le> rangeEnd r" by simp
  show ?case
  proof (cases "x = r")
    case True
    with assms(2) openRanges_mono [OF le, of rest] show ?thesis
      by (simp add: openRanges_def)
  next
    case False
    with Cons.prems have "r \<in> set rest" by simp
    from Cons.IH [OF this] assms(2) show ?thesis by (auto simp: openRanges_def)
  qed
qed

definition alignedRanges :: "maintenanceRange list \<Rightarrow> bool" where
  "alignedRanges ranges \<longleftrightarrow> (\<forall>r \<in> set ranges. onMinute (rangeStart r) \<and> onMinute (rangeEnd r))"

lemma nextWorkingMomentLoop_spec:
  assumes wf: "\<forall>s \<in> set shs. wellFormedShift s" and ne: "shs \<noteq> []" and al: "alignedRanges ranges"
  shows "2 * openRanges ranges c + 2 \<le> n \<or> (isWithinShift c shs \<and> 2 * openRanges ranges c + 1 \<le> n)
    \<Longrightarrow> c \<le> nextWorkingMomentLoop n shs ranges c
      \<and> working shs ranges (nextWorkingMomentLoop n shs ranges c)
      \<and> (\<forall>u. c \<le> u \<and> u < nextWorkingMomentLoop n shs ranges c \<longrightarrow> \<not> working shs ranges u)
      \<and> (nextWorkingMomentLoop n shs ranges c = c \<or> onMinute (nextWorkingMomentLoop n shs ranges c))"
proof (induction n arbitrary: c)
  case 0
  then show ?case by simp
next
  case (Suc n)
  show ?case
  proof (cases "isWithinShift c shs")
    case False
    let ?c = "getNextShiftStart c shs"
    from False ne have e: "nextWorkingMomentLoop (Suc n) shs ranges c = nextWorkingMomentLoop n shs ranges ?c"
      by simp
    note sp = getNextShiftStart_spec [OF wf ne False]
    from sp(4) obtain h where "?c = startOfDay ?c + h * 3600000" by blast
    with onMinute_hour [of ?c h] have om: "onMinute ?c" by simp
    from Suc.prems False have "2 * openRanges ranges c + 2 \<le> Suc n" by blast
    with openRanges_mono [OF sp(1), of ranges] sp(2)
    have "2 * openRanges ranges ?c + 2 \<le> n \<or> (isWithinShift ?c shs \<and> 2 * openRanges ranges ?c + 1 \<le> n)"
      by simp
    from Suc.IH [OF this] have ih: "?c \<le> nextWorkingMomentLoop n shs ranges ?c"
      "working shs ranges (nextWorkingMomentLoop n shs ranges ?c)"
      "\<And>u. ?c \<le> u \<Longrightarrow> u < nextWorkingMomentLoop n shs ranges ?c \<Longrightarrow> \<not> working shs ranges u"
      "nextWorkingMomentLoop n shs ranges ?c = ?c \<or> onMinute (nextWorkingMomentLoop n shs ranges ?c)"
      by blast+
    have "\<not> working shs ranges u" if "c \<le> u" and "u < nextWorkingMomentLoop n shs ranges ?c" for u
    proof (cases "u < ?c")
      case True
      from sp(3) [OF that(1) True] show ?thesis by (simp add: working_def)
    next
      case False
      then have "?c \<le> u" by simp
      from ih(3) [OF this that(2)] show ?thesis .
    qed
    moreover from ih(4) om have "onMinute (nextWorkingMomentLoop n shs ranges ?c)" by auto
    moreover from sp(1) ih(1) have "c \<le> nextWorkingMomentLoop n shs ranges ?c" by simp
    ultimately show ?thesis using ih(2) unfolding e by blast
  next
    case True
    show ?thesis
    proof (cases "isInMaintenanceRange c ranges")
      case False
      with True have "nextWorkingMomentLoop (Suc n) shs ranges c = c" by simp
      with True False show ?thesis by (auto simp: working_def)
    next
      case inM: True
      then have rne: "ranges \<noteq> []" by (auto simp: isInMaintenanceRange_def)
      from getMaintenanceRangeEnd_in [OF inM] obtain r where r: "r \<in> set ranges" "inRange c r"
        and g: "getMaintenanceRangeEnd c ranges = Some (rangeEnd r)" by blast
      let ?e = "rangeEnd r"
      from True inM rne g
      have e: "nextWorkingMomentLoop (Suc n) shs ranges c = nextWorkingMomentLoop n shs ranges ?e"
        by simp
      from r(2) have lo: "rangeStart r \<le> c" and hi: "c < ?e" by (simp_all add: inRange_def)
      from r(1) al have om: "onMinute ?e" by (simp add: alignedRanges_def)
      from Suc.prems have "2 * openRanges ranges c + 1 \<le> Suc n" by auto
      with openRanges_drop [OF r(1) hi] have "2 * openRanges ranges ?e + 2 \<le> n" by simp
      then have "2 * openRanges ranges ?e + 2 \<le> n \<or> (isWithinShift ?e shs \<and> 2 * openRanges ranges ?e + 1 \<le> n)"
        by simp
      from Suc.IH [OF this] have ih: "?e \<le> nextWorkingMomentLoop n shs ranges ?e"
        "working shs ranges (nextWorkingMomentLoop n shs ranges ?e)"
        "\<And>u. ?e \<le> u \<Longrightarrow> u < nextWorkingMomentLoop n shs ranges ?e \<Longrightarrow> \<not> working shs ranges u"
        "nextWorkingMomentLoop n shs ranges ?e = ?e \<or> onMinute (nextWorkingMomentLoop n shs ranges ?e)"
        by blast+
      have "\<not> working shs ranges u" if "c \<le> u" and "u < nextWorkingMomentLoop n shs ranges ?e" for u
      proof (cases "u < ?e")
        case True
        with lo that(1) have "inRange u r" by (simp add: inRange_def)
        with r(1) have "isInMaintenanceRange u ranges"
          by (auto simp: isInMaintenanceRange_def list_ex_iff)
        then show ?thesis by (simp add: working_def)
      next
        case False
        then have "?e \<le> u" by simp
        from ih(3) [OF this that(2)] show ?thesis .
      qed
      moreover from ih(4) om have "onMinute (nextWorkingMomentLoop n shs ranges ?e)" by auto
      moreover from hi ih(1) have "c \<le> nextWorkingMomentLoop n shs ranges ?e" by simp
      ultimately show ?thesis using ih(2) unfolding e by blast
    qed
  qed
qed

lemma getNextWorkingMoment_spec:
  assumes wf: "\<forall>s \<in> set shs. wellFormedShift s" and ne: "shs \<noteq> []" and al: "alignedRanges ranges"
    and few: "length ranges \<le> 499"
  shows "c \<le> getNextWorkingMoment c shs ranges"
    and "working shs ranges (getNextWorkingMoment c shs ranges)"
    and "\<And>u. c \<le> u \<Longrightarrow> u < getNextWorkingMoment c shs ranges \<Longrightarrow> \<not> working shs ranges u"
    and "onMinute c \<Longrightarrow> onMinute (getNextWorkingMoment c shs ranges)"
proof -
  from few openRanges_le [of ranges c] have "2 * openRanges ranges c + 2 \<le> 1000" by simp
  then have "2 * openRanges ranges c + 2 \<le> 1000
      \<or> (isWithinShift c shs \<and> 2 * openRanges ranges c + 1 \<le> 1000)" by simp
  from nextWorkingMomentLoop_spec [OF wf ne al this]
  show "c \<le> getNextWorkingMoment c shs ranges"
    and "working shs ranges (getNextWorkingMoment c shs ranges)"
    and "\<And>u. c \<le> u \<Longrightarrow> u < getNextWorkingMoment c shs ranges \<Longrightarrow> \<not> working shs ranges u"
    and "onMinute c \<Longrightarrow> onMinute (getNextWorkingMoment c shs ranges)"
    unfolding getNextWorkingMoment_def by auto
qed


definition segmentStep :: "instant \<Rightarrow> maintenanceRange \<Rightarrow> instant \<Rightarrow> instant" where
  "segmentStep dt r segmentEnd =
     (if rangeStart r > dt \<and> rangeStart r < segmentEnd then rangeStart r else segmentEnd)"

lemma getWorkingSegmentEnd_fold:
  "getWorkingSegmentEnd dt shs ranges = fold (segmentStep dt) ranges (getShiftSegmentEnd dt shs)"
  unfolding getWorkingSegmentEnd_def segmentStep_def by (rule refl)

lemma segment_fold:
  assumes "c < e0"
  shows "c < fold (segmentStep c) rs e0 \<and> fold (segmentStep c) rs e0 \<le> e0
    \<and> (\<forall>r \<in> set rs. c < rangeStart r \<longrightarrow> fold (segmentStep c) rs e0 \<le> rangeStart r)
    \<and> (fold (segmentStep c) rs e0 = e0 \<or> fold (segmentStep c) rs e0 \<in> rangeStart ` set rs)"
  using assms
proof (induction rs arbitrary: e0)
  case Nil
  then show ?case by simp
next
  case (Cons r rs)
  let ?e1 = "segmentStep c r e0"
  from Cons.prems have a: "c < ?e1" and b: "?e1 \<le> e0" and d: "c < rangeStart r \<longrightarrow> ?e1 \<le> rangeStart r"
    and f: "?e1 = e0 \<or> ?e1 = rangeStart r"
    by (auto simp: segmentStep_def)
  from Cons.IH [OF a] have ih: "c < fold (segmentStep c) rs ?e1" "fold (segmentStep c) rs ?e1 \<le> ?e1"
    "\<forall>r \<in> set rs. c < rangeStart r \<longrightarrow> fold (segmentStep c) rs ?e1 \<le> rangeStart r"
    "fold (segmentStep c) rs ?e1 = ?e1 \<or> fold (segmentStep c) rs ?e1 \<in> rangeStart ` set rs"
    by blast+
  have e: "fold (segmentStep c) (r # rs) e0 = fold (segmentStep c) rs ?e1" by simp
  from ih(1) have "c < fold (segmentStep c) (r # rs) e0" by (simp only: e)
  moreover from ih(2) b have "fold (segmentStep c) (r # rs) e0 \<le> e0" by (simp only: e)
  moreover from ih(2,3) d have "\<forall>x \<in> set (r # rs). c < rangeStart x
      \<longrightarrow> fold (segmentStep c) (r # rs) e0 \<le> rangeStart x"
    unfolding e by auto
  moreover from ih(4) f have "fold (segmentStep c) (r # rs) e0 = e0
      \<or> fold (segmentStep c) (r # rs) e0 \<in> rangeStart ` set (r # rs)"
    unfolding e by auto
  ultimately show ?case by blast
qed

lemma getWorkingSegmentEnd_spec:
  assumes wf: "\<forall>s \<in> set shs. wellFormedShift s" and al: "alignedRanges ranges"
    and w: "working shs ranges c"
  shows "c < getWorkingSegmentEnd c shs ranges"
    and "\<And>u. c \<le> u \<Longrightarrow> u < getWorkingSegmentEnd c shs ranges \<Longrightarrow> working shs ranges u"
    and "onMinute (getWorkingSegmentEnd c shs ranges)"
proof -
  let ?e0 = "getShiftSegmentEnd c shs" and ?se = "getWorkingSegmentEnd c shs ranges"
  from w have ws: "isWithinShift c shs" and nm: "\<not> isInMaintenanceRange c ranges"
    by (simp_all add: working_def)
  note sh = getShiftSegmentEnd_within [OF wf ws]
  from segment_fold [OF sh(1), of ranges]
  have f: "c < ?se" "?se \<le> ?e0" "\<forall>r \<in> set ranges. c < rangeStart r \<longrightarrow> ?se \<le> rangeStart r"
    "?se = ?e0 \<or> ?se \<in> rangeStart ` set ranges"
    unfolding getWorkingSegmentEnd_fold by blast+
  from f(1) show "c < ?se" .
  show "working shs ranges u" if u: "c \<le> u" "u < ?se" for u
  proof -
    from u f(2) have "isWithinShift u shs" by (intro sh(2)) simp_all
    moreover have "\<not> inRange u r" if r: "r \<in> set ranges" for r
    proof (cases "c < rangeStart r")
      case True
      with f(3) r u(2) show ?thesis by (auto simp: inRange_def)
    next
      case False
      from nm r have "\<not> inRange c r" by (auto simp: isInMaintenanceRange_def list_ex_iff)
      with False u(1) show ?thesis by (auto simp: inRange_def)
    qed
    ultimately show ?thesis by (auto simp: working_def isInMaintenanceRange_def list_ex_iff)
  qed
  from sh(3) obtain h where "?e0 = startOfDay c + h * 3600000" by blast
  with onMinute_hour [of c h] have "onMinute ?e0" by simp
  with f(4) al show "onMinute ?se" by (auto simp: alignedRanges_def)
qed

lemma walkLoop_conserves:
  assumes wf: "\<forall>s \<in> set shs. wellFormedShift s" and ne: "shs \<noteq> []" and al: "alignedRanges ranges"
    and few: "length ranges \<le> 499"
  shows "working shs ranges c \<Longrightarrow> onMinute c \<Longrightarrow> 0 \<le> m \<Longrightarrow> m \<le> int n
    \<Longrightarrow> c \<le> walkLoop n shs ranges c m
      \<and> workingMillis shs ranges c (walkLoop n shs ranges c m) = m * 60000"
proof (induction n arbitrary: c m)
  case 0
  then show ?case by (simp add: workingMillis_none)
next
  case (Suc n)
  show ?case
  proof (cases "m > 0")
    case False
    with Suc.prems(3) have "m = 0" by simp
    then show ?thesis by (simp add: workingMillis_none)
  next
    case True
    let ?se = "getWorkingSegmentEnd c shs ranges"
    let ?k = "diffMinutesFloor ?se c"
    let ?c = "getNextWorkingMoment ?se shs ranges"
    note sg = getWorkingSegmentEnd_spec [OF wf al Suc.prems(1)]
    note nx = getNextWorkingMoment_spec [OF wf ne al few, of ?se]
    from onMinute_diff [OF Suc.prems(2) sg(3)] have d: "?se - c = 60000 * ?k"
      by (simp add: diffMinutesFloor_def)
    with sg(1) have k1: "1 \<le> ?k" by simp
    show ?thesis
    proof (cases "m \<le> ?k")
      case le: True
      with True k1 have e: "walkLoop (Suc n) shs ranges c m = c + m * 60000"
        by (simp add: Let_def plusMinutes_def)
      from le d have "c + m * 60000 \<le> ?se" by simp
      then have "working shs ranges u" if "c \<le> u" and "u < c + m * 60000" for u
        using that by (intro sg(2)) simp_all
      with True have "workingMillis shs ranges c (c + m * 60000) = c + m * 60000 - c"
        by (intro workingMillis_all) simp_all
      with True show ?thesis unfolding e by simp
    next
      case gt: False
      with True k1 have e: "walkLoop (Suc n) shs ranges c m = walkLoop n shs ranges ?c (m - ?k)"
        by (simp add: Let_def)
      from gt k1 Suc.prems(4) have "0 \<le> m - ?k" and "m - ?k \<le> int n" by simp_all
      from Suc.IH [OF nx(2) nx(4) [OF sg(3)] this]
      have ih: "?c \<le> walkLoop n shs ranges ?c (m - ?k)"
        "workingMillis shs ranges ?c (walkLoop n shs ranges ?c (m - ?k)) = (m - ?k) * 60000"
        by simp_all
      from sg(1) have cs: "c \<le> ?se" by simp
      have w1: "workingMillis shs ranges c ?se = ?se - c"
        using cs sg(2) by (rule workingMillis_all)
      have w2: "workingMillis shs ranges ?se ?c = 0"
        using nx(3) by (rule workingMillis_none)
      from nx(1) ih(1) have se: "?se \<le> walkLoop n shs ranges ?c (m - ?k)" by simp
      have "workingMillis shs ranges c (walkLoop n shs ranges ?c (m - ?k))
          = workingMillis shs ranges c ?se
            + (workingMillis shs ranges ?se ?c
               + workingMillis shs ranges ?c (walkLoop n shs ranges ?c (m - ?k)))"
        by (simp only: workingMillis_split [OF cs se] workingMillis_split [OF nx(1) ih(1)])
      also have "\<dots> = m * 60000"
        by (simp only: w1 w2 ih(2) d) (simp add: algebra_simps)
      finally have "workingMillis shs ranges c (walkLoop n shs ranges ?c (m - ?k)) = m * 60000" .
      moreover from cs se have "c \<le> walkLoop n shs ranges ?c (m - ?k)" by simp
      ultimately show ?thesis unfolding e by simp
    qed
  qed
qed

lemma calculateEnd_conserves:
  assumes wf: "\<forall>s \<in> set shs. wellFormedShift s" and ne: "shs \<noteq> []" and al: "alignedRanges ranges"
    and few: "length ranges \<le> 499" and om: "onMinute s" and d0: "0 \<le> d" and d1: "d \<le> 5000"
  shows "s \<le> calculateEndDateWithShiftsAndMaintenance s d shs ranges"
    and "workingMillis shs ranges s (calculateEndDateWithShiftsAndMaintenance s d shs ranges) = d * 60000"
proof -
  let ?c = "getNextWorkingMoment s shs ranges"
  note nx = getNextWorkingMoment_spec [OF wf ne al few, of s]
  from ne have e: "calculateEndDateWithShiftsAndMaintenance s d shs ranges = walkLoop 5000 shs ranges ?c d"
    by (simp add: calculateEndDateWithShiftsAndMaintenance_def)
  from d1 have "d \<le> int 5000" by simp
  from walkLoop_conserves [OF wf ne al few nx(2) nx(4) [OF om] d0 this]
  have w: "?c \<le> walkLoop 5000 shs ranges ?c d"
    "workingMillis shs ranges ?c (walkLoop 5000 shs ranges ?c d) = d * 60000" by simp_all
  from nx(1) w(1) show "s \<le> calculateEndDateWithShiftsAndMaintenance s d shs ranges"
    unfolding e by simp
  have "workingMillis shs ranges s ?c = 0" using nx(3) by (rule workingMillis_none)
  with w(2) workingMillis_split [OF nx(1) w(1), of shs ranges]
  show "workingMillis shs ranges s (calculateEndDateWithShiftsAndMaintenance s d shs ranges) = d * 60000"
    unfolding e by simp
qed


subsection \<open>The placer\<close>

text \<open>
  Every entry of \<^verbatim>\<open>newSchedule\<close> holds a start and the time-walk of that start, for the
  duration and the work center of the order of that number.
\<close>

definition planned :: "(string \<rightharpoonup> workOrder) \<Rightarrow> (string \<rightharpoonup> workCenter)
    \<Rightarrow> (string \<rightharpoonup> instant \<times> instant) \<Rightarrow> bool" where
  "planned byNumber byName sched \<longleftrightarrow>
     (\<forall>i s e. sched i = Some (s, e) \<longrightarrow>
        (\<exists>wo. byNumber i = Some wo
           \<and> e = calculateEndDateWithShiftsAndMaintenance s (durationMinutes wo)
                 (case byName (workCenterId wo) of None \<Rightarrow> [] | Some c \<Rightarrow> shifts c)
                 (map toRange (case byName (workCenterId wo) of None \<Rightarrow> []
                                | Some c \<Rightarrow> maintenanceWindows c))))"

lemma placeOrder_planned:
  assumes "placeOrder byNumber byName st i = Inr st'" and "planned byNumber byName (newSchedule st)"
  shows "planned byNumber byName (newSchedule st')" and "newSchedule st' i \<noteq> None"
    and "\<And>j. newSchedule st j \<noteq> None \<Longrightarrow> newSchedule st' j \<noteq> None"
proof -
  from assms(1) obtain wo where wo: "byNumber i = Some wo"
    by (cases "byNumber i") (auto simp: placeOrder_def)
  let ?shs = "case byName (workCenterId wo) of None \<Rightarrow> [] | Some c \<Rightarrow> shifts c"
  let ?wins = "case byName (workCenterId wo) of None \<Rightarrow> [] | Some c \<Rightarrow> maintenanceWindows c"
  let ?s = "candidateStartOf byNumber byName st wo"
  let ?e = "calculateEndDateWithShiftsAndMaintenance ?s (durationMinutes wo) ?shs (map toRange ?wins)"
  from assms(1) wo have n: "newSchedule st' = (newSchedule st)(i \<mapsto> (?s, ?e))"
    by (auto simp: placeOrder_def Let_def)
  from assms(2) wo show "planned byNumber byName (newSchedule st')"
    unfolding n planned_def by auto
  show "newSchedule st' i \<noteq> None" unfolding n by simp
  show "\<And>j. newSchedule st j \<noteq> None \<Longrightarrow> newSchedule st' j \<noteq> None" unfolding n by simp
qed

lemma placeAll_planned:
  "placeAll byNumber byName st ids = Inr st' \<Longrightarrow> planned byNumber byName (newSchedule st)
    \<Longrightarrow> planned byNumber byName (newSchedule st')
      \<and> (\<forall>i \<in> set ids. newSchedule st' i \<noteq> None)
      \<and> (\<forall>j. newSchedule st j \<noteq> None \<longrightarrow> newSchedule st' j \<noteq> None)"
proof (induction ids arbitrary: st)
  case Nil
  then show ?case by simp
next
  case (Cons i rest)
  from Cons.prems(1) obtain st1 :: placerState where p: "placeOrder byNumber byName st i = Inr st1"
    and r: "placeAll byNumber byName st1 rest = Inr st'"
    by (cases "placeOrder byNumber byName st i") auto
  note po = placeOrder_planned [OF p Cons.prems(2)]
  from Cons.IH [OF r po(1)] have ih: "planned byNumber byName (newSchedule st')"
    "\<forall>i \<in> set rest. newSchedule st' i \<noteq> None"
    "\<forall>j. newSchedule st1 j \<noteq> None \<longrightarrow> newSchedule st' j \<noteq> None" by blast+
  from ih(3) po(2) have "newSchedule st' i \<noteq> None" by blast
  moreover from ih(3) po(3) have "\<forall>j. newSchedule st j \<noteq> None \<longrightarrow> newSchedule st' j \<noteq> None"
    by blast
  ultimately show ?case using ih(1,2) by simp
qed

lemma topologicalOrder_covers:
  assumes "topologicalOrder wos = Inr ids"
  shows "set ids = workOrderNumber ` set wos"
proof -
  note t = topologicalOrder_ids [OF assms]
  have "card (workOrderNumber ` set wos) \<le> card (set wos)" by (rule card_image_le) simp
  also have "\<dots> \<le> length wos" by (rule card_length)
  also from t(2,3) have "\<dots> = card (set ids)" by (simp add: distinct_card)
  finally have "card (workOrderNumber ` set wos) \<le> card (set ids)" .
  with t(1) show ?thesis by (intro card_seteq) simp_all
qed

lemma reflow_planned:
  assumes "reflow wos wcs = Some (Inr res)" and "out \<in> set (updatedWorkOrders res)"
    and "\<not> isMaintenance out"
  shows "endDate out = calculateEndDateWithShiftsAndMaintenance (startDate out) (durationMinutes out)
           (case indexByName wcs (workCenterId out) of None \<Rightarrow> [] | Some c \<Rightarrow> shifts c)
           (map toRange (case indexByName wcs (workCenterId out) of None \<Rightarrow> []
                          | Some c \<Rightarrow> maintenanceWindows c))"
proof -
  from reflow_result_cases [OF assms(1)] obtain ids l and st :: placerState where
    t: "topologicalOrder wos = Inr ids"
    and n: "selectNonMaintenance (indexByNumber wos) ids = Inr l"
    and p: "placeAll (indexByNumber wos) (indexByName wcs) initialState l = Inr st"
    and u: "updatedWorkOrders res = map (updateOrder (newSchedule st)) wos" by blast
  from assms(2) u obtain wo where wo: "wo \<in> set wos" and o: "out = updateOrder (newSchedule st) wo"
    by auto
  from assms(3) o have nm: "\<not> isMaintenance wo" by (simp add: updateOrder_keeps)
  from topologicalOrder_distinct_ids [OF t] wo
  have b: "indexByNumber wos (workOrderNumber wo) = Some wo" by (rule indexByNumber_distinct)
  from topologicalOrder_covers [OF t] have c: "set ids = workOrderNumber ` set wos" .
  then have "\<forall>i \<in> set ids. indexByNumber wos i \<noteq> None"
    by (simp add: indexByNumber_None_iff)
  from selectNonMaintenance_filter [OF this] n
  have l: "l = filter (\<lambda>i. case indexByNumber wos i of None \<Rightarrow> False | Some w \<Rightarrow> \<not> isMaintenance w) ids"
    by simp
  from c wo have "workOrderNumber wo \<in> set ids" by auto
  with b nm have m: "workOrderNumber wo \<in> set l" unfolding l by simp
  have "planned (indexByNumber wos) (indexByName wcs) (newSchedule initialState)"
    by (simp add: planned_def initialState_def)
  from placeAll_planned [OF p this] m
  have pl: "planned (indexByNumber wos) (indexByName wcs) (newSchedule st)"
    and "newSchedule st (workOrderNumber wo) \<noteq> None" by blast+
  then obtain s e where se: "newSchedule st (workOrderNumber wo) = Some (s, e)" by auto
  with pl b have e: "e = calculateEndDateWithShiftsAndMaintenance s (durationMinutes wo)
       (case indexByName wcs (workCenterId wo) of None \<Rightarrow> [] | Some c \<Rightarrow> shifts c)
       (map toRange (case indexByName wcs (workCenterId wo) of None \<Rightarrow> []
                      | Some c \<Rightarrow> maintenanceWindows c))"
    unfolding planned_def by fastforce
  from se nm o have "out = wo\<lparr>startDate := s, endDate := e\<rparr>" by (simp add: updateOrder_def)
  with e show ?thesis by simp
qed

text \<open>
  On whole minutes the walk conserves the duration. Let reflow return a result, and let \<open>out\<close>
  be a non-maintenance order of \<open>updatedWorkOrders\<close> whose work center has at least one shift.
  If every shift of the center is well formed, every maintenance window of the center starts
  and ends on a whole minute, the output start of the order is on a whole minute, and
  neither loop reaches its iteration bound (at most 499 windows and at most 5000 minutes are
  enough for that, and are not necessary), then the output end is not before the output
  start and the working time between them is exactly \<open>durationMinutes\<close> minutes.
\<close>

lemma duration_conservation:
  assumes "reflow wos wcs = Some (Inr res)"
    and "out \<in> set (updatedWorkOrders res)" and "\<not> isMaintenance out"
    and "indexByName wcs (workCenterId out) = Some wc"
    and "shifts wc \<noteq> []" and "\<forall>s \<in> set (shifts wc). wellFormedShift s"
    and "alignedRanges (map toRange (maintenanceWindows wc))"
    and "length (maintenanceWindows wc) \<le> 499"
    and "onMinute (startDate out)"
    and "0 \<le> durationMinutes out" and "durationMinutes out \<le> 5000"
  shows "startDate out \<le> endDate out
    \<and> workingMillis (shifts wc) (map toRange (maintenanceWindows wc)) (startDate out) (endDate out)
        = durationMinutes out * 60000"
proof -
  from reflow_planned [OF assms(1,2,3)] assms(4)
  have e: "endDate out = calculateEndDateWithShiftsAndMaintenance (startDate out) (durationMinutes out)
       (shifts wc) (map toRange (maintenanceWindows wc))" by simp
  from assms(8) have "length (map toRange (maintenanceWindows wc)) \<le> 499" by simp
  from calculateEnd_conserves [OF assms(6,5,7) this assms(9,10,11)] show ?thesis
    unfolding e by simp
qed


text \<open>
  The example: 120 minutes from Monday 1970-01-05 16:00, shift 08:00-17:00 on Monday and
  Tuesday, maintenance on Tuesday 08:00-09:00. The order works 60 minutes on Monday and
  60 minutes on Tuesday from 09:00, and ends on Tuesday 10:00.
\<close>

definition pausedCenter :: workCenter where
  "pausedCenter = \<lparr>name = ''Line3'', shifts = weekShifts,
     maintenanceWindows = [\<lparr>winStartDate = 460800000, winEndDate = 464400000,
                            reason = Some ''inspection''\<rparr>]\<rparr>"

definition pausedOrder :: workOrder where
  "pausedOrder = \<lparr>workOrderNumber = ''WO-7'', workCenterId = ''Line3'', startDate = 403200000,
     endDate = 410400000, durationMinutes = 120, isMaintenance = False, dependsOnWorkOrderIds = []\<rparr>"

definition pausedResult :: reflowResult where
  "pausedResult =
     \<lparr>updatedWorkOrders = [pausedOrder\<lparr>endDate := 468000000\<rparr>],
      changes = [\<lparr>changeWorkOrderId = ''WO-7'', changedField = EndDateField,
           oldValue = 410400000, newValue = 468000000,
           changeReason = ''shift or maintenance'',
           howCreated =
             ''Recalculated: duration counted only in shift and outside maintenance; work pauses at shift end or during maintenance, resumes after, so end can be later.''\<rparr>],
      explanationOf = Explained [EndMoved ''WO-7'' 468000000
           ''shift- and maintenance-aware: work paused at cutoff, resumed after'']\<rparr>"

lemma reflow_pausedOrder: "reflow [pausedOrder] [pausedCenter] = Some (Inr pausedResult)"
  by code_simp

lemma pausedOrder_conserved:
  "reflow [pausedOrder] [pausedCenter] = Some (Inr pausedResult)
   \<and> pausedOrder\<lparr>endDate := 468000000\<rparr> \<in> set (updatedWorkOrders pausedResult)
   \<and> workingMillis weekShifts [\<lparr>rangeStart = 460800000, rangeEnd = 464400000\<rparr>]
        403200000 468000000 = 120 * 60000"
proof -
  let ?out = "pausedOrder\<lparr>endDate := 468000000\<rparr>"
  have m: "?out \<in> set (updatedWorkOrders pausedResult)" by (simp add: pausedResult_def)
  have n: "\<not> isMaintenance ?out" by (simp add: pausedOrder_def)
  have c: "indexByName [pausedCenter] (workCenterId ?out) = Some pausedCenter"
    by (simp add: indexByName_def pausedCenter_def pausedOrder_def)
  have s: "shifts pausedCenter \<noteq> []" by (simp add: pausedCenter_def weekShifts_def)
  have w: "\<forall>s \<in> set (shifts pausedCenter). wellFormedShift s"
    by (simp add: pausedCenter_def weekShifts_def wellFormedShift_def)
  have a: "alignedRanges (map toRange (maintenanceWindows pausedCenter))"
    by (simp add: pausedCenter_def alignedRanges_def toRange_def onMinute_def)
  have f: "length (maintenanceWindows pausedCenter) \<le> 499" by (simp add: pausedCenter_def)
  have o: "onMinute (startDate ?out)" by (simp add: pausedOrder_def onMinute_def)
  have d: "0 \<le> durationMinutes ?out" "durationMinutes ?out \<le> 5000" by (simp_all add: pausedOrder_def)
  from duration_conservation [OF reflow_pausedOrder m n c s w a f o d] reflow_pausedOrder m
  show ?thesis by (simp add: pausedCenter_def pausedOrder_def toRange_def)
qed

text \<open>
  An order of one minute from Monday 1970-01-05 09:00:00 on a center with the shift
  08:00-17:00 and the maintenance windows 09:00:30-09:01:00 and 09:01:30-09:02:00.
\<close>

definition splitCenter :: workCenter where
  "splitCenter = \<lparr>name = ''Line4'', shifts = weekShifts,
     maintenanceWindows =
       [\<lparr>winStartDate = 378030000, winEndDate = 378060000, reason = Some ''purge''\<rparr>,
        \<lparr>winStartDate = 378090000, winEndDate = 378120000, reason = Some ''purge''\<rparr>]\<rparr>"

definition splitOrder :: workOrder where
  "splitOrder = \<lparr>workOrderNumber = ''WO-8'', workCenterId = ''Line4'', startDate = 378000000,
     endDate = 378060000, durationMinutes = 1, isMaintenance = False, dependsOnWorkOrderIds = []\<rparr>"

definition splitResult :: reflowResult where
  "splitResult =
     \<lparr>updatedWorkOrders = [splitOrder\<lparr>endDate := 378180000\<rparr>],
      changes = [\<lparr>changeWorkOrderId = ''WO-8'', changedField = EndDateField,
           oldValue = 378060000, newValue = 378180000,
           changeReason = ''shift or maintenance'',
           howCreated =
             ''Recalculated: duration counted only in shift and outside maintenance; work pauses at shift end or during maintenance, resumes after, so end can be later.''\<rparr>],
      explanationOf = Explained [EndMoved ''WO-8'' 378180000
           ''shift- and maintenance-aware: work paused at cutoff, resumed after'']\<rparr>"

lemma reflow_splitOrder: "reflow [splitOrder] [splitCenter] = Some (Inr splitResult)"
  by code_simp

lemma split_working:
  assumes "378000000 \<le> t" and "t < 378180000"
  shows "working (shifts splitCenter) (map toRange (maintenanceWindows splitCenter)) t
    \<longleftrightarrow> \<not> (378030000 \<le> t \<and> t < 378060000) \<and> \<not> (378090000 \<le> t \<and> t < 378120000)"
proof -
  let ?monday = "\<lparr>dayOfWeek = 1, startHour = 8, endHour = 17\<rparr>"
  have wf: "wellFormedShift ?monday" by (simp add: wellFormedShift_def)
  have i: "isInShift 378000000 ?monday" by code_simp
  have "setHour 378000000 (startHour ?monday) = 374400000"
    and "setHour 378000000 (endHour ?monday) = 406800000"
    by (simp_all add: setHour_def startOfDay_def)
  with assms have "setHour 378000000 (startHour ?monday) \<le> t"
    and "t < setHour 378000000 (endHour ?monday)" by simp_all
  from shift_interval [OF wf i this] have "isWithinShift t (shifts splitCenter)"
    by (simp add: isWithinShift_def splitCenter_def weekShifts_def)
  then show ?thesis
    by (simp add: working_def isInMaintenanceRange_def inRange_def toRange_def splitCenter_def)
qed

lemma split_workingMillis:
  "workingMillis (shifts splitCenter) (map toRange (maintenanceWindows splitCenter))
     378000000 378180000 = 120000"
proof -
  let ?wm = "workingMillis (shifts splitCenter) (map toRange (maintenanceWindows splitCenter))"
  have a: "?wm 378000000 378030000 = 378030000 - 378000000"
    by (rule workingMillis_all) (simp_all add: split_working)
  have b: "?wm 378030000 378060000 = 0"
    by (rule workingMillis_none) (simp add: split_working)
  have c: "?wm 378060000 378090000 = 378090000 - 378060000"
    by (rule workingMillis_all) (simp_all add: split_working)
  have d: "?wm 378090000 378120000 = 0"
    by (rule workingMillis_none) (simp add: split_working)
  have e: "?wm 378120000 378180000 = 378180000 - 378120000"
    by (rule workingMillis_all) (simp_all add: split_working)
  have "?wm 378000000 378180000 = ?wm 378000000 378030000 + ?wm 378030000 378180000"
    by (rule workingMillis_split) simp_all
  also have "?wm 378030000 378180000 = ?wm 378030000 378060000 + ?wm 378060000 378180000"
    by (rule workingMillis_split) simp_all
  also have "?wm 378060000 378180000 = ?wm 378060000 378090000 + ?wm 378090000 378180000"
    by (rule workingMillis_split) simp_all
  also have "?wm 378090000 378180000 = ?wm 378090000 378120000 + ?wm 378120000 378180000"
    by (rule workingMillis_split) simp_all
  finally show ?thesis by (simp add: a b c d e)
qed

text \<open>
  Claim C5: for every order rescheduled by reflow whose work center has a shift, the working
  time between the output start and the output end (inside a shift, outside every maintenance
  window) is exactly \<open>durationMinutes\<close> minutes. The code misses this when a working stretch is
  shorter than a minute. One minute of work from Monday 1970-01-05 09:00:00, shift
  08:00-17:00, maintenance 09:00:30-09:01:00 and 09:01:30-09:02:00: the walk takes
  \<^verbatim>\<open>Math.floor\<close> of the minutes of each working stretch, passes the two working half minutes
  as 0 minutes each, and counts the minute from 09:02:00, so the order ends at 09:03:00.
  Reflow returns this schedule. Between the output start and the output end the order has
  120000 working milliseconds, two minutes, for a duration of one, where
  \<^verbatim>\<open>calculateEndDateWithShiftsAndMaintenance\<close> is documented to return the moment when
  \<open>durationMinutes\<close> of working time has elapsed.
\<close>

theorem duration_not_conserved:
  "reflow [splitOrder] [splitCenter] = Some (Inr splitResult)
   \<and> updatedWorkOrders splitResult = [splitOrder\<lparr>endDate := 378180000\<rparr>]
   \<and> indexByName [splitCenter] (workCenterId splitOrder) = Some splitCenter
   \<and> shifts splitCenter \<noteq> []
   \<and> durationMinutes splitOrder = 1
   \<and> workingMillis (shifts splitCenter) (map toRange (maintenanceWindows splitCenter))
        378000000 378180000 = 2 * 60000"
proof -
  have "indexByName [splitCenter] (workCenterId splitOrder) = Some splitCenter"
    by (simp add: indexByName_def splitCenter_def splitOrder_def)
  moreover have "shifts splitCenter \<noteq> []" by (simp add: splitCenter_def weekShifts_def)
  ultimately show ?thesis
    using reflow_splitOrder split_workingMillis
    by (simp add: splitResult_def splitOrder_def)
qed

section \<open>Maintenance orders as fixed obstacles\<close>

subsection \<open>The start chosen by the placer\<close>

text \<open>
  The placer never moves a start backwards: \<^verbatim>\<open>getNextShiftStart\<close> keeps only candidates that are
  not before \<open>dt\<close>, and the snap-forward loop moves to the end of a window that holds the
  current instant.
\<close>

lemma getNextShiftStart_ge: "dt \<le> getNextShiftStart dt shs"
proof (cases "shs = []")
  case True
  then show ?thesis by (simp add: getNextShiftStart_def)
next
  case False
  show ?thesis
  proof (cases "dayFold dt shs [0, 1, 2, 3, 4, 5, 6, 7] None")
    case None
    with False show ?thesis by (simp add: getNextShiftStart_dayFold)
  next
    case (Some b)
    from days_result_None [OF Some] have "dt \<le> b" by blast
    with False Some show ?thesis by (simp add: getNextShiftStart_dayFold)
  qed
qed

lemma snapToShift_ge: "t \<le> snapToShift t shs"
  by (simp add: snapToShift_def getNextShiftStart_ge)

lemma availableLoop_ge: "c \<le> availableLoop n shs windows c"
proof (induction n arbitrary: c)
  case 0
  then show ?case by simp
next
  case (Suc n)
  show ?case
  proof (cases "isInMaintenance c windows")
    case False
    then show ?thesis by simp
  next
    case True
    show ?thesis
    proof (cases "find (inWindow c) windows")
      case None
      with True Suc [of c] show ?thesis by simp
    next
      case (Some w)
      then have "inWindow c w" by (auto simp: find_Some_iff)
      then have "c \<le> winEndDate w" by (simp add: inWindow_def)
      also have "\<dots> \<le> snapToShift (winEndDate w) shs" by (rule snapToShift_ge)
      also have "\<dots> \<le> availableLoop n shs windows (snapToShift (winEndDate w) shs)" by (rule Suc)
      finally show ?thesis using True Some by simp
    qed
  qed
qed

lemma getNextAvailableStart_ge: "t \<le> getNextAvailableStart t shs windows"
proof -
  have "t \<le> snapToShift t shs" by (rule snapToShift_ge)
  also have "\<dots> \<le> availableLoop 500 shs windows (snapToShift t shs)" by (rule availableLoop_ge)
  finally show ?thesis by (simp add: getNextAvailableStart_def)
qed

lemma parentEndStep_fold_keeps:
  "m0 = Some x \<Longrightarrow> \<exists>m. fold (parentEndStep byNumber sched) ds m0 = Some m \<and> x \<le> m"
proof (induction ds arbitrary: m0 x)
  case Nil
  then show ?case by simp
next
  case (Cons d ds)
  from Cons.prems have "\<exists>y. parentEndStep byNumber sched d m0 = Some y \<and> x \<le> y"
    by (auto simp: parentEndStep_def split: option.splits)
  then obtain y where y: "parentEndStep byNumber sched d m0 = Some y" and "x \<le> y" by blast
  from Cons.IH [OF y] obtain m where "fold (parentEndStep byNumber sched) ds (Some y) = Some m"
    and "y \<le> m" using y by auto
  with \<open>x \<le> y\<close> y show ?case by auto
qed

lemma parentEndStep_fold_ge:
  assumes "d \<in> set ds" and "byNumber d = Some p"
  shows "\<exists>m. fold (parentEndStep byNumber sched) ds m0 = Some m \<and> parentEndOf sched p \<le> m"
  using assms(1)
proof (induction ds arbitrary: m0)
  case Nil
  then show ?case by simp
next
  case (Cons x ds)
  show ?case
  proof (cases "d = x")
    case True
    with assms(2) have "\<exists>y. parentEndStep byNumber sched x m0 = Some y \<and> parentEndOf sched p \<le> y"
      by (cases m0) (auto simp: parentEndStep_def)
    then obtain y where y: "parentEndStep byNumber sched x m0 = Some y"
      and le: "parentEndOf sched p \<le> y" by blast
    from parentEndStep_fold_keeps [OF y, of byNumber sched ds] le show ?thesis by auto
  next
    case False
    with Cons.prems have "d \<in> set ds" by simp
    from Cons.IH [OF this] show ?thesis by simp
  qed
qed

text \<open>
  A dependent of a maintenance order is never placed before the stored end of that order,
  whatever the placer's state holds (also when \<^verbatim>\<open>newSchedule\<close> has an entry under the number of
  the maintenance order).
\<close>

lemma candidateStartOf_ge:
  assumes "d \<in> set (dependsOnWorkOrderIds wo)" and "byNumber d = Some p" and "isMaintenance p"
  shows "endDate p \<le> candidateStartOf byNumber byName st wo"
proof -
  from parentEndStep_fold_ge [where byNumber = byNumber and d = d and p = p
      and ds = "dependsOnWorkOrderIds wo" and sched = "newSchedule st" and ?m0.0 = None,
      OF assms(1,2)]
  obtain m where m: "maxParentEndOf byNumber (newSchedule st) wo = Some m"
    and le: "parentEndOf (newSchedule st) p \<le> m" by (auto simp: maxParentEndOf_def)
  from assms(3) le have "endDate p \<le> m" by (simp add: parentEndOf_def)
  also have "m \<le> max (max (orElse (lastEndOnCenter (scheduledByCenter st) (workCenterId wo)) (startDate wo))
                          (orElse (Some m) (startDate wo))) (startDate wo)"
    by (simp add: orElse_def)
  also have "\<dots> \<le> getNextAvailableStart \<dots>
       (case byName (workCenterId wo) of None \<Rightarrow> [] | Some c \<Rightarrow> shifts c)
       (case byName (workCenterId wo) of None \<Rightarrow> [] | Some c \<Rightarrow> maintenanceWindows c)"
    by (rule getNextAvailableStart_ge)
  finally show ?thesis by (simp add: candidateStartOf_def m Let_def)
qed

definition afterMaintenanceParents :: "(string \<rightharpoonup> workOrder)
    \<Rightarrow> (string \<rightharpoonup> instant \<times> instant) \<Rightarrow> bool" where
  "afterMaintenanceParents byNumber sched \<longleftrightarrow>
     (\<forall>i s e. sched i = Some (s, e) \<longrightarrow>
        (\<exists>wo. byNumber i = Some wo
           \<and> (\<forall>d \<in> set (dependsOnWorkOrderIds wo). \<forall>p. byNumber d = Some p \<and> isMaintenance p
                 \<longrightarrow> endDate p \<le> s)))"

lemma placeOrder_afterMaintenanceParents:
  assumes "placeOrder byNumber byName st i = Inr st'"
    and "afterMaintenanceParents byNumber (newSchedule st)"
  shows "afterMaintenanceParents byNumber (newSchedule st')"
proof -
  from assms(1) obtain wo where wo: "byNumber i = Some wo"
    by (cases "byNumber i") (auto simp: placeOrder_def)
  let ?s = "candidateStartOf byNumber byName st wo"
  from assms(1) wo obtain e where n: "newSchedule st' = (newSchedule st)(i \<mapsto> (?s, e))"
    by (auto simp: placeOrder_def Let_def)
  have "\<forall>d \<in> set (dependsOnWorkOrderIds wo). \<forall>p. byNumber d = Some p \<and> isMaintenance p
      \<longrightarrow> endDate p \<le> ?s"
    using candidateStartOf_ge by blast
  with assms(2) wo show ?thesis
    unfolding n afterMaintenanceParents_def by auto
qed

lemma placeAll_afterMaintenanceParents:
  "placeAll byNumber byName st ids = Inr st' \<Longrightarrow> afterMaintenanceParents byNumber (newSchedule st)
    \<Longrightarrow> afterMaintenanceParents byNumber (newSchedule st')"
proof (induction ids arbitrary: st)
  case Nil
  then show ?case by simp
next
  case (Cons i rest)
  from Cons.prems(1) obtain st1 :: placerState where p: "placeOrder byNumber byName st i = Inr st1"
    and r: "placeAll byNumber byName st1 rest = Inr st'"
    by (cases "placeOrder byNumber byName st i") auto
  from Cons.IH [OF r placeOrder_afterMaintenanceParents [OF p Cons.prems(2)]] show ?case .
qed


lemma reflow_placed:
  assumes "reflow wos wcs = Some (Inr r)"
  shows "\<exists>st :: placerState.
      r = \<lparr>updatedWorkOrders = map (updateOrder (newSchedule st)) wos,
           changes = changesSoFar st,
           explanationOf = (if explanationParts st \<noteq> [] then Explained (explanationParts st)
                            else NoChangesRequired)\<rparr>
    \<and> (\<exists>ids l. topologicalOrder wos = Inr ids
          \<and> selectNonMaintenance (indexByNumber wos) ids = Inr l
          \<and> placeAll (indexByNumber wos) (indexByName wcs) initialState l = Inr st)
    \<and> validateSchedule (map (updateOrder (newSchedule st)) wos) wcs = Some \<lparr>valid = True, errors = []\<rparr>
    \<and> afterMaintenanceParents (indexByNumber wos) (newSchedule st)
    \<and> distinct (map workOrderNumber wos)
    \<and> (\<forall>wo \<in> set wos. \<not> isMaintenance wo \<longrightarrow> newSchedule st (workOrderNumber wo) \<noteq> None)"
proof -
  from assms obtain ids where t: "topologicalOrder wos = Inr ids"
    by (cases "topologicalOrder wos") (auto simp: reflow_def)
  from reflow_after_sort [OF t, of wcs] obtain l and st :: placerState where
    n: "selectNonMaintenance (indexByNumber wos) ids = Inr l"
    and p: "placeAll (indexByNumber wos) (indexByName wcs) initialState l = Inr st"
    and e: "reflow wos wcs =
        (case validateSchedule (map (updateOrder (newSchedule st)) wos) wcs of
           None \<Rightarrow> None
         | Some v \<Rightarrow>
             if \<not> valid v then Some (Inl (InvalidSchedule (errors v)))
             else Some (Inr \<lparr>updatedWorkOrders = map (updateOrder (newSchedule st)) wos,
                             changes = changesSoFar st,
                             explanationOf = (if explanationParts st \<noteq> []
                                              then Explained (explanationParts st)
                                              else NoChangesRequired)\<rparr>))"
    by blast
  from assms e obtain v where v: "validateSchedule (map (updateOrder (newSchedule st)) wos) wcs = Some v"
    and ok: "valid v"
    and r: "r = \<lparr>updatedWorkOrders = map (updateOrder (newSchedule st)) wos,
                 changes = changesSoFar st,
                 explanationOf = (if explanationParts st \<noteq> [] then Explained (explanationParts st)
                                  else NoChangesRequired)\<rparr>"
    by (auto split: option.splits if_splits)
  from validateSchedule_valid [OF v ok] v
  have vv: "validateSchedule (map (updateOrder (newSchedule st)) wos) wcs = Some \<lparr>valid = True, errors = []\<rparr>"
    by simp
  have "afterMaintenanceParents (indexByNumber wos) (newSchedule initialState)"
    by (simp add: afterMaintenanceParents_def initialState_def)
  from placeAll_afterMaintenanceParents [OF p this]
  have am: "afterMaintenanceParents (indexByNumber wos) (newSchedule st)" .
  from topologicalOrder_distinct_ids [OF t] have dn: "distinct (map workOrderNumber wos)" .
  from topologicalOrder_covers [OF t] have c: "set ids = workOrderNumber ` set wos" .
  then have "\<forall>i \<in> set ids. indexByNumber wos i \<noteq> None"
    by (simp add: indexByNumber_None_iff)
  from selectNonMaintenance_filter [OF this] n
  have l: "l = filter (\<lambda>i. case indexByNumber wos i of None \<Rightarrow> False | Some w \<Rightarrow> \<not> isMaintenance w) ids"
    by simp
  have "planned (indexByNumber wos) (indexByName wcs) (newSchedule initialState)"
    by (simp add: planned_def initialState_def)
  from placeAll_planned [OF p this] have al: "\<forall>i \<in> set l. newSchedule st i \<noteq> None" by blast
  have "newSchedule st (workOrderNumber wo) \<noteq> None" if wo: "wo \<in> set wos" and nm: "\<not> isMaintenance wo" for wo
  proof -
    from dn wo have b: "indexByNumber wos (workOrderNumber wo) = Some wo" by (rule indexByNumber_distinct)
    from c wo have "workOrderNumber wo \<in> set ids" by auto
    with b nm have "workOrderNumber wo \<in> set l" unfolding l by simp
    with al show ?thesis by blast
  qed
  with r t n p vv am dn show ?thesis by blast
qed

subsection \<open>Records and references\<close>

text \<open>
  The work orders are objects, and the input and output arrays hold references to them. A
  heap is the list of the objects allocated so far and a reference is a position in it; a
  new object is appended. \<^verbatim>\<open>updatedWorkOrders\<close> is built by
  \<^verbatim>\<open>workOrders.map((wo) => { if (wo.isMaintenance) return wo; ... if (!next) return wo; return { ...wo, startDate, endDate } })\<close>:
  the reference itself for a maintenance order and for an order without a new schedule, a
  new object otherwise. Nothing else in reflow or in the validator writes to a work order
  (the validator sorts a copy of each center's list).
\<close>

type_synonym reference = nat
type_synonym heap = "workOrder list"

definition emitOrder :: "(string \<rightharpoonup> instant \<times> instant) \<Rightarrow> reference \<Rightarrow> heap \<times> reference list
    \<Rightarrow> heap \<times> reference list" where
  "emitOrder sched r acc =
     (case acc of (h, out) \<Rightarrow>
        if isMaintenance (h ! r) then (h, out @ [r])
        else case sched (workOrderNumber (h ! r)) of
               None \<Rightarrow> (h, out @ [r])
             | Some (s, e) \<Rightarrow> (h @ [(h ! r)\<lparr>startDate := s, endDate := e\<rparr>], out @ [length h]))"

definition reflowOnHeap :: "heap \<Rightarrow> reference list \<Rightarrow> workCenter list
    \<Rightarrow> (reflowError + heap \<times> reference list \<times> change list \<times> explanation) option" where
  "reflowOnHeap h refs wcs =
     (let wos = map (\<lambda>r. h ! r) refs in
      case topologicalOrder wos of
        Inl e \<Rightarrow> Some (Inl e)
      | Inr orderIds \<Rightarrow>
          (case selectNonMaintenance (indexByNumber wos) orderIds of
             Inl e \<Rightarrow> Some (Inl e)
           | Inr nonMaintenanceIds \<Rightarrow>
               (case placeAll (indexByNumber wos) (indexByName wcs) initialState nonMaintenanceIds of
                  Inl e \<Rightarrow> Some (Inl e)
                | Inr st \<Rightarrow>
                    (case fold (emitOrder (newSchedule st)) refs (h, []) of
                       (h', out) \<Rightarrow>
                         (case validateSchedule (map (\<lambda>r. h' ! r) out) wcs of
                            None \<Rightarrow> None
                          | Some validation \<Rightarrow>
                              if \<not> valid validation
                              then Some (Inl (InvalidSchedule (errors validation)))
                              else Some (Inr (h', out, changesSoFar st,
                                              if explanationParts st \<noteq> []
                                              then Explained (explanationParts st)
                                              else NoChangesRequired)))))))"

lemma emitOrder_fold:
  assumes "\<forall>r \<in> set refs. r < length h0"
  shows "fold (emitOrder sched) refs (h0 @ e1, out1) = (h2, out2)
    \<Longrightarrow> (\<exists>e2. h2 = h0 @ e1 @ e2)
      \<and> (\<exists>outs. out2 = out1 @ outs \<and> length outs = length refs
            \<and> map (\<lambda>r. h2 ! r) outs = map (\<lambda>r. updateOrder sched (h0 ! r)) refs
            \<and> (\<forall>i < length refs.
                  if isMaintenance (h0 ! (refs ! i)) \<or> sched (workOrderNumber (h0 ! (refs ! i))) = None
                  then outs ! i = refs ! i else length (h0 @ e1) \<le> outs ! i))"
  using assms
proof (induction refs arbitrary: e1 out1)
  case Nil
  then have "h2 = h0 @ e1 @ []" and "out2 = out1 @ []" by simp_all
  then show ?case by (intro conjI exI [of _ "[]"]) simp_all
next
  case (Cons r rs)
  from Cons.prems(2) have r: "r < length h0" and rs: "\<forall>r \<in> set rs. r < length h0" by simp_all
  let ?h1 = "h0 @ e1"
  from r have rd: "?h1 ! r = h0 ! r" by (simp add: nth_append)
  let ?keep = "isMaintenance (h0 ! r) \<or> sched (workOrderNumber (h0 ! r)) = None"
  define e where "e = (if ?keep then [] else [updateOrder sched (h0 ! r)])"
  define a where "a = (if ?keep then r else length ?h1)"
  have st: "emitOrder sched r (?h1, out1) = (h0 @ (e1 @ e), out1 @ [a])"
    by (auto simp: emitOrder_def rd e_def a_def updateOrder_def split: option.splits)
  have al: "a < length (h0 @ (e1 @ e))" using r by (simp add: a_def e_def)
  have av: "(h0 @ (e1 @ e)) ! a = updateOrder sched (h0 ! r)"
    using r by (auto simp: a_def e_def nth_append updateOrder_def split: option.splits)
  from Cons.prems(1) have "fold (emitOrder sched) rs (h0 @ (e1 @ e), out1 @ [a]) = (h2, out2)"
    by (simp add: st)
  from Cons.IH [OF this rs] obtain e2 outs where h2: "h2 = h0 @ (e1 @ e) @ e2"
    and o2: "out2 = (out1 @ [a]) @ outs" and len: "length outs = length rs"
    and vals: "map (\<lambda>r. h2 ! r) outs = map (\<lambda>r. updateOrder sched (h0 ! r)) rs"
    and idx: "\<forall>i < length rs.
        if isMaintenance (h0 ! (rs ! i)) \<or> sched (workOrderNumber (h0 ! (rs ! i))) = None
        then outs ! i = rs ! i else length (h0 @ (e1 @ e)) \<le> outs ! i"
    by blast
  from al have "h2 ! a = (h0 @ (e1 @ e)) ! a"
    unfolding h2 by (simp only: append_assoc [symmetric] nth_append) simp
  with av have va: "h2 ! a = updateOrder sched (h0 ! r)" by simp
  have i0: "if ?keep then a = r else length ?h1 \<le> a" by (simp add: a_def)
  have "\<forall>i < length (r # rs).
        if isMaintenance (h0 ! ((r # rs) ! i)) \<or> sched (workOrderNumber (h0 ! ((r # rs) ! i))) = None
        then (a # outs) ! i = (r # rs) ! i else length ?h1 \<le> (a # outs) ! i"
  proof (intro allI impI)
    fix i assume "i < length (r # rs)"
    show "if isMaintenance (h0 ! ((r # rs) ! i)) \<or> sched (workOrderNumber (h0 ! ((r # rs) ! i))) = None
        then (a # outs) ! i = (r # rs) ! i else length ?h1 \<le> (a # outs) ! i"
    proof (cases i)
      case 0
      with i0 show ?thesis by (auto split: if_splits)
    next
      case (Suc k)
      with \<open>i < length (r # rs)\<close> have "k < length rs" by simp
      with idx have "if isMaintenance (h0 ! (rs ! k)) \<or> sched (workOrderNumber (h0 ! (rs ! k))) = None
        then outs ! k = rs ! k else length (h0 @ (e1 @ e)) \<le> outs ! k" by blast
      with Suc show ?thesis by (auto split: if_splits)
    qed
  qed
  moreover have "h2 = h0 @ e1 @ (e @ e2)" by (simp add: h2)
  moreover have "out2 = out1 @ (a # outs)" by (simp add: o2)
  moreover have "length (a # outs) = length (r # rs)" by (simp add: len)
  moreover have "map (\<lambda>r. h2 ! r) (a # outs) = map (\<lambda>r. updateOrder sched (h0 ! r)) (r # rs)"
    by (simp add: va vals)
  ultimately show ?case by blast
qed


lemma emitOrder_fold_start:
  assumes "\<forall>r \<in> set refs. r < length h" and "fold (emitOrder sched) refs (h, []) = (h', out)"
  shows "take (length h) h' = h" and "length out = length refs"
    and "map (\<lambda>r. h' ! r) out = map (\<lambda>r. updateOrder sched (h ! r)) refs"
    and "\<forall>i < length refs.
          if isMaintenance (h ! (refs ! i)) \<or> sched (workOrderNumber (h ! (refs ! i))) = None
          then out ! i = refs ! i else length h \<le> out ! i"
proof -
  from assms(2) have "fold (emitOrder sched) refs (h @ [], []) = (h', out)" by simp
  from emitOrder_fold [OF assms(1) this]
  have "\<exists>e2. h' = h @ [] @ e2"
    and "\<exists>outs. out = [] @ outs \<and> length outs = length refs
            \<and> map (\<lambda>r. h' ! r) outs = map (\<lambda>r. updateOrder sched (h ! r)) refs
            \<and> (\<forall>i < length refs.
                  if isMaintenance (h ! (refs ! i)) \<or> sched (workOrderNumber (h ! (refs ! i))) = None
                  then outs ! i = refs ! i else length (h @ []) \<le> outs ! i)"
    by blast+
  then show "take (length h) h' = h" and "length out = length refs"
    and "map (\<lambda>r. h' ! r) out = map (\<lambda>r. updateOrder sched (h ! r)) refs"
    and "\<forall>i < length refs.
          if isMaintenance (h ! (refs ! i)) \<or> sched (workOrderNumber (h ! (refs ! i))) = None
          then out ! i = refs ! i else length h \<le> out ! i"
    by auto
qed

lemma reflowOnHeap_result:
  assumes "reflow wos wcs = Some (Inr r)" and "\<forall>a \<in> set refs. a < length h"
    and "map (\<lambda>a. h ! a) refs = wos"
  shows "\<exists>h' out. reflowOnHeap h refs wcs = Some (Inr (h', out, changes r, explanationOf r))
    \<and> take (length h) h' = h \<and> map (\<lambda>a. h' ! a) out = updatedWorkOrders r
    \<and> (\<forall>i < length refs. if isMaintenance (wos ! i) then out ! i = refs ! i else length h \<le> out ! i)"
proof -
  from reflow_placed [OF assms(1)] obtain st :: placerState and ids l where
    r: "r = \<lparr>updatedWorkOrders = map (updateOrder (newSchedule st)) wos,
           changes = changesSoFar st,
           explanationOf = (if explanationParts st \<noteq> [] then Explained (explanationParts st)
                            else NoChangesRequired)\<rparr>"
    and t: "topologicalOrder wos = Inr ids"
    and n: "selectNonMaintenance (indexByNumber wos) ids = Inr l"
    and p: "placeAll (indexByNumber wos) (indexByName wcs) initialState l = Inr st"
    and v: "validateSchedule (map (updateOrder (newSchedule st)) wos) wcs = Some \<lparr>valid = True, errors = []\<rparr>"
    and all: "\<forall>wo \<in> set wos. \<not> isMaintenance wo \<longrightarrow> newSchedule st (workOrderNumber wo) \<noteq> None"
    by blast
  obtain h' out where f': "fold (emitOrder (newSchedule st)) refs (h, []) = (h', out)"
    by (cases "fold (emitOrder (newSchedule st)) refs (h, [])") blast
  note em = emitOrder_fold_start [OF assms(2) f']
  note vals = em(3) and idx = em(4)
  from assms(3) have lw: "length wos = length refs" by auto
  from assms(3) have nth: "h ! (refs ! i) = wos ! i" if "i < length refs" for i
    using that by (auto simp: nth_map [symmetric] simp del: nth_map)
  have "map (\<lambda>a. updateOrder (newSchedule st) (h ! a)) refs
      = map (updateOrder (newSchedule st)) (map (\<lambda>a. h ! a) refs)" by simp
  with vals assms(3) have u: "map (\<lambda>a. h' ! a) out = map (updateOrder (newSchedule st)) wos" by simp
  have i2: "if isMaintenance (wos ! i) then out ! i = refs ! i else length h \<le> out ! i"
    if i: "i < length refs" for i
  proof (cases "isMaintenance (wos ! i)")
    case True
    with idx i nth [OF i] show ?thesis by auto
  next
    case False
    from i lw have "wos ! i \<in> set wos" by simp
    with all False have "newSchedule st (workOrderNumber (wos ! i)) \<noteq> None" by blast
    with idx i nth [OF i] False show ?thesis by auto
  qed
  have "reflowOnHeap h refs wcs = Some (Inr (h', out, changes r, explanationOf r))"
    by (simp add: reflowOnHeap_def assms(3) t n p f' u v r)
  moreover note em(1)
  ultimately show ?thesis using u i2 r by auto
qed

lemma indexByNumber_updated:
  assumes "distinct (map workOrderNumber wos)" and "j < length wos"
  shows "indexByNumber (map (updateOrder sched) wos) (workOrderNumber (wos ! j))
    = Some (updateOrder sched (wos ! j))"
proof -
  have e: "map workOrderNumber (map (updateOrder sched) wos) = map workOrderNumber wos"
    by (induction wos) (simp_all add: updateOrder_keeps)
  have d: "distinct (map workOrderNumber (map (updateOrder sched) wos))"
    unfolding e using assms(1) .
  from assms(2) have "updateOrder sched (wos ! j) \<in> set (map (updateOrder sched) wos)" by simp
  from indexByNumber_distinct [OF d this] show ?thesis by (simp add: updateOrder_keeps)
qed

text \<open>
  Claim C7. When reflow returns a result, the output list has one order per input order, in
  the same positions; a maintenance order is the input record itself (start and end
  verbatim); every other output order is the input order with new \<open>startDate\<close> and \<open>endDate\<close>
  values. Every order that depends on a maintenance order starts, in the output, at or after
  the stored end of that maintenance order (the placer takes the stored end for a
  maintenance parent, and snaps forward only). Every other order of the same work center is,
  in the output, apart from the stored interval of the maintenance order (the placer does not
  look at maintenance orders for conflicts; the validator's conflict check, which reads the
  output list, does). On the heap, every input record is left as it was, the reference
  returned for a maintenance order is the input reference itself, and the reference returned
  for every other order is a new record.
\<close>

theorem maintenance_orders_fixed:
  "reflow wos wcs = Some (Inr r) \<Longrightarrow>
     length (updatedWorkOrders r) = length wos
   \<and> (\<forall>i < length wos. isMaintenance (wos ! i) \<longrightarrow> updatedWorkOrders r ! i = wos ! i)
   \<and> (\<forall>i < length wos. \<exists>s e. updatedWorkOrders r ! i = (wos ! i)\<lparr>startDate := s, endDate := e\<rparr>)
   \<and> (\<forall>i < length wos. \<forall>j < length wos.
         isMaintenance (wos ! j) \<and> workOrderNumber (wos ! j) \<in> set (dependsOnWorkOrderIds (wos ! i))
         \<longrightarrow> endDate (wos ! j) \<le> startDate (updatedWorkOrders r ! i))
   \<and> (\<forall>i < length wos. \<forall>j < length wos.
         i \<noteq> j \<and> isMaintenance (wos ! j) \<and> workCenterId (wos ! i) = workCenterId (wos ! j)
         \<longrightarrow> apart (updatedWorkOrders r ! i) (wos ! j))
   \<and> (\<forall>h refs. (\<forall>a \<in> set refs. a < length h) \<and> map (\<lambda>a. h ! a) refs = wos
         \<longrightarrow> (\<exists>h' out. reflowOnHeap h refs wcs = Some (Inr (h', out, changes r, explanationOf r))
                \<and> take (length h) h' = h
                \<and> map (\<lambda>a. h' ! a) out = updatedWorkOrders r
                \<and> (\<forall>i < length refs. if isMaintenance (wos ! i) then out ! i = refs ! i
                                       else length h \<le> out ! i)))"
proof -
  assume a: "reflow wos wcs = Some (Inr r)"
  from reflow_placed [OF a] obtain st :: placerState where
    r: "r = \<lparr>updatedWorkOrders = map (updateOrder (newSchedule st)) wos,
           changes = changesSoFar st,
           explanationOf = (if explanationParts st \<noteq> [] then Explained (explanationParts st)
                            else NoChangesRequired)\<rparr>"
    and v: "validateSchedule (map (updateOrder (newSchedule st)) wos) wcs = Some \<lparr>valid = True, errors = []\<rparr>"
    and am: "afterMaintenanceParents (indexByNumber wos) (newSchedule st)"
    and dn: "distinct (map workOrderNumber wos)"
    and all: "\<forall>wo \<in> set wos. \<not> isMaintenance wo \<longrightarrow> newSchedule st (workOrderNumber wo) \<noteq> None"
    by blast
  from r have u: "updatedWorkOrders r = map (updateOrder (newSchedule st)) wos" by simp
  let ?up = "map (updateOrder (newSchedule st)) wos"
  have maint: "?up ! j = wos ! j" if "j < length wos" and "isMaintenance (wos ! j)" for j
    using that by (simp add: updateOrder_def)
  have c1: "length (updatedWorkOrders r) = length wos" by (simp add: u)
  have c2: "\<forall>i < length wos. isMaintenance (wos ! i) \<longrightarrow> updatedWorkOrders r ! i = wos ! i"
    using maint by (simp add: u)
  have c3: "\<forall>i < length wos. \<exists>s e. updatedWorkOrders r ! i = (wos ! i)\<lparr>startDate := s, endDate := e\<rparr>"
    using updateOrder_fields [of "newSchedule st"] by (simp add: u)
  have c4: "endDate (wos ! j) \<le> startDate (updatedWorkOrders r ! i)"
    if i: "i < length wos" and j: "j < length wos" and mj: "isMaintenance (wos ! j)"
      and dep: "workOrderNumber (wos ! j) \<in> set (dependsOnWorkOrderIds (wos ! i))" for i j
  proof (cases "isMaintenance (wos ! i)")
    case True
    from i have "i < length ?up" by simp
    then have m: "?up ! i \<in> set ?up" by (rule nth_mem)
    from dep have d: "workOrderNumber (wos ! j) \<in> set (dependsOnWorkOrderIds (?up ! i))"
      using i by (simp add: updateOrder_keeps)
    from indexByNumber_updated [OF dn j, of "newSchedule st"] maint [OF j mj] j
    have b: "indexByNumber ?up (workOrderNumber (wos ! j)) = Some (wos ! j)" by simp
    from valid_dependencies [OF v m d b] show ?thesis by (simp add: u)
  next
    case False
    from i have wi: "wos ! i \<in> set wos" by simp
    from j have wj: "wos ! j \<in> set wos" by simp
    from all wi False obtain s e where se: "newSchedule st (workOrderNumber (wos ! i)) = Some (s, e)"
      by fastforce
    from indexByNumber_distinct [OF dn wi] have bi: "indexByNumber wos (workOrderNumber (wos ! i)) = Some (wos ! i)" .
    from indexByNumber_distinct [OF dn wj] have bj: "indexByNumber wos (workOrderNumber (wos ! j)) = Some (wos ! j)" .
    from am se bi have "\<forall>d \<in> set (dependsOnWorkOrderIds (wos ! i)). \<forall>p.
        indexByNumber wos d = Some p \<and> isMaintenance p \<longrightarrow> endDate p \<le> s"
      unfolding afterMaintenanceParents_def by fastforce
    with dep bj mj have "endDate (wos ! j) \<le> s" by blast
    moreover from False se i have "startDate (updatedWorkOrders r ! i) = s"
      by (simp add: u updateOrder_def)
    ultimately show ?thesis by simp
  qed
  from validateSchedule_conflict_free [OF v] have cf: "checkWorkCenterConflicts ?up [] = []" .
  have c5: "apart (updatedWorkOrders r ! i) (wos ! j)"
    if i: "i < length wos" and j: "j < length wos" and ne: "i \<noteq> j" and mj: "isMaintenance (wos ! j)"
      and wc: "workCenterId (wos ! i) = workCenterId (wos ! j)" for i j
  proof -
    from i j wc have w: "workCenterId (?up ! i) = workCenterId (?up ! j)"
      by (simp add: updateOrder_keeps)
    have "apart (?up ! i) (?up ! j)"
    proof (cases "i < j")
      case True
      from j have "j < length ?up" by simp
      from conflict_free_pairs [OF cf True this w] show ?thesis .
    next
      case False
      with ne have lt: "j < i" by simp
      from i have "i < length ?up" by simp
      from conflict_free_pairs [OF cf lt this w [symmetric]] show ?thesis
        by (auto simp: apart_def)
    qed
    with maint [OF j mj] show ?thesis by (simp add: u)
  qed
  have c6: "\<exists>h' out. reflowOnHeap h refs wcs = Some (Inr (h', out, changes r, explanationOf r))
                \<and> take (length h) h' = h
                \<and> map (\<lambda>a. h' ! a) out = updatedWorkOrders r
                \<and> (\<forall>i < length refs. if isMaintenance (wos ! i) then out ! i = refs ! i
                                       else length h \<le> out ! i)"
    if "(\<forall>a \<in> set refs. a < length h) \<and> map (\<lambda>a. h ! a) refs = wos" for h refs
    using reflowOnHeap_result [OF a, of refs h] that by blast
  from c1 c2 c3 c4 c5 c6 show ?thesis by blast
qed

definition serviceOrder :: workOrder where
  "serviceOrder = \<lparr>workOrderNumber = ''MAINT-1'', workCenterId = ''Line2'', startDate = 374400000,
     endDate = 381600000, durationMinutes = 120, isMaintenance = True, dependsOnWorkOrderIds = []\<rparr>"

definition dependentOrder :: workOrder where
  "dependentOrder = \<lparr>workOrderNumber = ''WO-2'', workCenterId = ''Line2'', startDate = 378000000,
     endDate = 381600000, durationMinutes = 60, isMaintenance = False,
     dependsOnWorkOrderIds = [''MAINT-1'']\<rparr>"

definition dependentResult :: reflowResult where
  "dependentResult =
     \<lparr>updatedWorkOrders = [serviceOrder, dependentOrder\<lparr>startDate := 381600000, endDate := 385200000\<rparr>],
      changes =
        [\<lparr>changeWorkOrderId = ''WO-2'', changedField = StartDateField,
           oldValue = 378000000, newValue = 381600000,
           changeReason = ''dependency'',
           howCreated = ''Earliest slot after dependency finished; aligned to shift/maintenance.''\<rparr>,
         \<lparr>changeWorkOrderId = ''WO-2'', changedField = EndDateField,
           oldValue = 381600000, newValue = 385200000,
           changeReason = ''cascade from new start'',
           howCreated = ''Recalculated from new start: duration counted only in shift and outside maintenance (work pauses at shift end or during maintenance, resumes after).''\<rparr>],
      explanationOf = Explained [StartMoved ''WO-2'' 381600000 ''dependency on parent'',
                                 EndMoved ''WO-2'' 385200000 ''recalculated from new start'']\<rparr>"

lemma reflow_dependent: "reflow [serviceOrder, dependentOrder] [shiftCenter] = Some (Inr dependentResult)"
  by code_simp

text \<open>
  The example: a maintenance order on Monday 08:00-10:00 and an order of 60 minutes of the
  same center, stored at 09:00-10:00, that depends on it. Reflow moves the dependent to
  10:00-11:00; on a heap that holds the two input records at positions 0 and 1, the output
  array is the reference 0 and the reference 2 of a new record.
\<close>

theorem maintenance_orders_fixed_witness:
  "reflow [serviceOrder, dependentOrder] [shiftCenter] = Some (Inr dependentResult)
   \<and> isMaintenance serviceOrder
   \<and> length (updatedWorkOrders dependentResult) = 2
   \<and> updatedWorkOrders dependentResult ! 0 = serviceOrder
   \<and> updatedWorkOrders dependentResult ! 1 = dependentOrder\<lparr>startDate := 381600000, endDate := 385200000\<rparr>
   \<and> workOrderNumber serviceOrder \<in> set (dependsOnWorkOrderIds dependentOrder)
   \<and> endDate serviceOrder \<le> startDate (updatedWorkOrders dependentResult ! 1)
   \<and> workCenterId dependentOrder = workCenterId serviceOrder
   \<and> apart (updatedWorkOrders dependentResult ! 1) serviceOrder
   \<and> reflowOnHeap [serviceOrder, dependentOrder] [0, 1] [shiftCenter]
       = Some (Inr ([serviceOrder, dependentOrder,
                     dependentOrder\<lparr>startDate := 381600000, endDate := 385200000\<rparr>],
                    [0, 2], changes dependentResult, explanationOf dependentResult))"
proof -
  note t = maintenance_orders_fixed [OF reflow_dependent]
  let ?wos = "[serviceOrder, dependentOrder]"
  have m: "isMaintenance serviceOrder" by (simp add: serviceOrder_def)
  have d: "workOrderNumber serviceOrder \<in> set (dependsOnWorkOrderIds dependentOrder)"
    by (simp add: serviceOrder_def dependentOrder_def)
  have c: "workCenterId dependentOrder = workCenterId serviceOrder"
    by (simp add: serviceOrder_def dependentOrder_def)
  from t have "(1::nat) < length ?wos \<longrightarrow> (0::nat) < length ?wos \<longrightarrow>
      isMaintenance (?wos ! 0) \<and> workOrderNumber (?wos ! 0) \<in> set (dependsOnWorkOrderIds (?wos ! 1))
      \<longrightarrow> endDate (?wos ! 0) \<le> startDate (updatedWorkOrders dependentResult ! 1)" by blast
  with m d have c4: "endDate serviceOrder \<le> startDate (updatedWorkOrders dependentResult ! 1)" by simp
  from t have "(1::nat) < length ?wos \<longrightarrow> (0::nat) < length ?wos \<longrightarrow>
      (1::nat) \<noteq> 0 \<and> isMaintenance (?wos ! 0) \<and> workCenterId (?wos ! 1) = workCenterId (?wos ! 0)
      \<longrightarrow> apart (updatedWorkOrders dependentResult ! 1) (?wos ! 0)" by blast
  with m c have c5: "apart (updatedWorkOrders dependentResult ! 1) serviceOrder" by simp
  have h: "reflowOnHeap [serviceOrder, dependentOrder] [0, 1] [shiftCenter]
       = Some (Inr ([serviceOrder, dependentOrder,
                     dependentOrder\<lparr>startDate := 381600000, endDate := 385200000\<rparr>],
                    [0, 2], changes dependentResult, explanationOf dependentResult))"
    by code_simp
  from t reflow_dependent m d c c4 c5 h show ?thesis
    by (simp add: dependentResult_def)
qed


text \<open>
  Without the dependency the placer leaves the second order at 09:00, inside the interval of
  the maintenance order, and the post-check rejects the schedule with the conflict error:
  the stored interval of the maintenance order is what the conflict check reads.
\<close>

lemma reflow_over_maintenance:
  "reflow [serviceOrder, dependentOrder\<lparr>dependsOnWorkOrderIds := []\<rparr>] [shiftCenter]
    = Some (Inl (InvalidSchedule
        [WorkCenterConflict ''Line2'' ''MAINT-1'' 381600000 ''WO-2'' 378000000]))"
  by code_simp

section \<open>The standalone validator\<close>

subsection \<open>The shift walk on well-formed shifts\<close>








subsection \<open>The two maintenance checks\<close>






end
